theory Spec2Isabelle
  imports Main "HOL-Library.Word"
begin

unbundle bit_operations_syntax

section \<open>Machine model\<close>

text \<open>
  Pointers are 64-bit words, \<open>word_t\<close> is the 32-bit \<open>int32_t\<close> of \<open>mm.c\<close> (signed
  comparisons are written \<open><s\<close>, \<open>\<le>s\<close>; conversions to \<open>size_t\<close> sign-extend with
  \<open>scast\<close>, conversions back truncate with \<open>ucast\<close>). The heap is an array of 4-byte
  words: memory maps every 4-aligned byte address to the word stored there, bytes are
  read out of the words in little-endian order.
\<close>

type_synonym addr = "64 word"
type_synonym word_t = "32 word"
type_synonym size_t = "64 word"

datatype error = BadAccess | OverlappingCopy

record heap =
  heap_start :: addr
  heap_end :: addr
  last_ptr :: addr
  list_start :: addr
  list_end :: addr
  mem :: "addr \<Rightarrow> word_t"
  mem_lo :: addr
  mem_brk :: addr
  mem_max :: addr

definition bnd :: "error + 'a \<Rightarrow> ('a \<Rightarrow> error + 'b) \<Rightarrow> error + 'b" where
  "bnd m f = (case m of Inl e \<Rightarrow> Inl e | Inr x \<Rightarrow> f x)"

text \<open>
  A word access is defined on 4-aligned addresses inside the region obtained from the heap
  provider, \<open>[mem_lo, mem_brk)\<close>; every other dereference (the null pointer included) is
  the error \<open>BadAccess\<close>.
\<close>

definition valid :: "heap \<Rightarrow> addr \<Rightarrow> bool" where
  "valid s a = (a AND 3 = 0 \<and> unat (mem_lo s) \<le> unat a \<and> unat a + 4 \<le> unat (mem_brk s))"

definition load :: "heap \<Rightarrow> addr \<Rightarrow> error + word_t" where
  "load s a = (if valid s a then Inr (mem s a) else Inl BadAccess)"

definition store :: "heap \<Rightarrow> addr \<Rightarrow> word_t \<Rightarrow> error + heap" where
  "store s a w = (if valid s a then Inr (s\<lparr>mem := (mem s)(a := w)\<rparr>) else Inl BadAccess)"

subsection \<open>Bytes, \<open>memcpy\<close> and \<open>memset\<close>\<close>

definition get_byte :: "(addr \<Rightarrow> word_t) \<Rightarrow> addr \<Rightarrow> 8 word" where
  "get_byte m a = ucast (drop_bit (8 * unat (a AND 3)) (m (a AND NOT 3)))"

definition cat4 :: "8 word \<Rightarrow> 8 word \<Rightarrow> 8 word \<Rightarrow> 8 word \<Rightarrow> word_t" where
  "cat4 b0 b1 b2 b3 =
     ucast b0 OR push_bit 8 (ucast b1) OR push_bit 16 (ucast b2) OR push_bit 24 (ucast b3)"

text \<open>\<open>put_bytes m p n f\<close> is \<open>m\<close> with byte \<open>p + i\<close> replaced by \<open>f i\<close>, for every \<open>i < n\<close>.\<close>

definition new_byte :: "(addr \<Rightarrow> word_t) \<Rightarrow> addr \<Rightarrow> size_t \<Rightarrow> (addr \<Rightarrow> 8 word) \<Rightarrow> addr \<Rightarrow> 8 word" where
  "new_byte m p n f a = (if a - p < n then f (a - p) else get_byte m a)"

definition put_bytes :: "(addr \<Rightarrow> word_t) \<Rightarrow> addr \<Rightarrow> size_t \<Rightarrow> (addr \<Rightarrow> 8 word) \<Rightarrow> addr \<Rightarrow> word_t" where
  "put_bytes m p n f =
     (\<lambda>c. cat4 (new_byte m p n f c) (new_byte m p n f (c + 1))
                (new_byte m p n f (c + 2)) (new_byte m p n f (c + 3)))"

definition range_ok :: "heap \<Rightarrow> addr \<Rightarrow> size_t \<Rightarrow> bool" where
  "range_ok s p n = (unat (mem_lo s) \<le> unat p \<and> unat p + unat n \<le> unat (mem_brk s))"

definition overlap :: "addr \<Rightarrow> addr \<Rightarrow> size_t \<Rightarrow> bool" where
  "overlap d p n = (unat d < unat p + unat n \<and> unat p < unat d + unat n)"

text \<open>
  The C library's \<open>memcpy\<close>: \<open>n\<close> bytes from \<open>src\<close> to \<open>dst\<close>. Its behaviour is
  undefined when the two ranges overlap; the model makes that case the error
  \<open>OverlappingCopy\<close>, and a range that leaves the provider's region \<open>BadAccess\<close>.
\<close>

definition memcpy :: "heap \<Rightarrow> addr \<Rightarrow> addr \<Rightarrow> size_t \<Rightarrow> error + heap" where
  "memcpy s dst src n =
     (if n = 0 then Inr s
      else if \<not> (range_ok s dst n \<and> range_ok s src n) then Inl BadAccess
      else if overlap dst src n then Inl OverlappingCopy
      else Inr (s\<lparr>mem := put_bytes (mem s) dst n (\<lambda>i. get_byte (mem s) (src + i))\<rparr>))"

definition memset :: "heap \<Rightarrow> addr \<Rightarrow> 8 word \<Rightarrow> size_t \<Rightarrow> error + heap" where
  "memset s p c n =
     (if n = 0 then Inr s
      else if \<not> range_ok s p n then Inl BadAccess
      else Inr (s\<lparr>mem := put_bytes (mem s) p n (\<lambda>i. c)\<rparr>))"

section \<open>Boundary tag handling\<close>

definition FREE :: word_t where "FREE = 0"
definition USED :: word_t where "USED = 1"
definition PREVFREE :: word_t where "PREVFREE = 2"

definition bt_size :: "heap \<Rightarrow> addr \<Rightarrow> error + word_t" where
  "bt_size s bt = bnd (load s bt) (\<lambda>w. Inr (w AND NOT (USED OR PREVFREE)))"

definition bt_used :: "heap \<Rightarrow> addr \<Rightarrow> error + word_t" where
  "bt_used s bt = bnd (load s bt) (\<lambda>w. Inr (w AND USED))"

definition bt_free :: "heap \<Rightarrow> addr \<Rightarrow> error + bool" where
  "bt_free s bt = bnd (load s bt) (\<lambda>w. Inr (w AND USED = 0))"

definition bt_footer :: "heap \<Rightarrow> addr \<Rightarrow> error + addr" where
  "bt_footer s bt = bnd (bt_size s bt) (\<lambda>n. Inr (bt + scast n - 4))"

definition bt_fromptr :: "addr \<Rightarrow> addr" where
  "bt_fromptr p = p - 4"

definition bt_get_prevfree :: "heap \<Rightarrow> addr \<Rightarrow> error + word_t" where
  "bt_get_prevfree s bt = bnd (load s bt) (\<lambda>w. Inr (w AND PREVFREE))"

definition bt_clr_prevfree :: "heap \<Rightarrow> addr \<Rightarrow> error + heap" where
  "bt_clr_prevfree s bt =
     (if bt \<noteq> 0 then bnd (load s bt) (\<lambda>w. store s bt (w AND NOT PREVFREE)) else Inr s)"

definition bt_set_prevfree :: "heap \<Rightarrow> addr \<Rightarrow> error + heap" where
  "bt_set_prevfree s bt = bnd (load s bt) (\<lambda>w. store s bt (w OR PREVFREE))"

definition bt_payload :: "addr \<Rightarrow> addr" where
  "bt_payload bt = bt + 4"

definition bt_next :: "heap \<Rightarrow> addr \<Rightarrow> error + addr" where
  "bt_next s bt =
     bnd (bt_size s bt) (\<lambda>n. let p = bt + scast n in Inr (if p \<le> heap_end s then p else 0))"

definition bt_prev :: "heap \<Rightarrow> addr \<Rightarrow> error + addr" where
  "bt_prev s bt =
     bnd (bt_size s (bt - 4)) (\<lambda>n. let p = bt - scast n in Inr (if heap_start s \<le> p then p else 0))"

definition bt_make :: "heap \<Rightarrow> addr \<Rightarrow> size_t \<Rightarrow> word_t \<Rightarrow> error + heap" where
  "bt_make s bt sz flags =
     bnd (store s bt (ucast (sz OR ucast flags))) (\<lambda>s1.
     bnd (bt_next s1 bt) (\<lambda>n1.
     bnd (bt_clr_prevfree s1 n1) (\<lambda>s2.
     bnd (bt_free s2 bt) (\<lambda>f.
     if f then
       bnd (bt_footer s2 bt) (\<lambda>ft.
       bnd (store s2 ft (ucast (sz OR ucast flags))) (\<lambda>s3.
       bnd (bt_next s3 bt) (\<lambda>n2.
       bt_set_prevfree s3 n2)))
     else Inr s2))))"

section \<open>List management\<close>

definition ptr_address :: "word_t \<Rightarrow> addr" where
  "ptr_address toadd = 0x800000000 OR scast toadd"

definition ptr_size :: "addr \<Rightarrow> word_t" where
  "ptr_size bt = ucast (bt - 0x800000000)"

definition ptr_next :: "heap \<Rightarrow> addr \<Rightarrow> error + addr" where
  "ptr_next s bt = bnd (load s (bt + 4)) (\<lambda>w. Inr (ptr_address w))"

definition ptr_prev :: "heap \<Rightarrow> addr \<Rightarrow> error + addr" where
  "ptr_prev s bt = bnd (load s (bt + 8)) (\<lambda>w. Inr (ptr_address w))"

definition list_set_prev :: "heap \<Rightarrow> addr \<Rightarrow> addr \<Rightarrow> error + heap" where
  "list_set_prev s block val = store s (block + 8) (ptr_size val)"

definition list_set_next :: "heap \<Rightarrow> addr \<Rightarrow> addr \<Rightarrow> error + heap" where
  "list_set_next s block val = store s (block + 4) (ptr_size val)"

definition list_clr_prev :: "heap \<Rightarrow> addr \<Rightarrow> error + heap" where
  "list_clr_prev s block = store s (block + 8) 0"

definition list_clr_next :: "heap \<Rightarrow> addr \<Rightarrow> error + heap" where
  "list_clr_next s block = store s (block + 4) 0"

definition list_add :: "heap \<Rightarrow> addr \<Rightarrow> error + heap" where
  "list_add s block =
     (if list_start s = 0 then
        (let s1 = s\<lparr>list_start := block, list_end := block\<rparr> in
         bnd (list_clr_next s1 (list_start s1)) (\<lambda>s2.
         list_clr_prev s2 (list_end s2)))
      else
        bnd (list_set_next s block (list_start s)) (\<lambda>s1.
        bnd (list_set_prev s1 (list_start s1) block) (\<lambda>s2.
        bnd (list_clr_prev s2 block) (\<lambda>s3.
        Inr (s3\<lparr>list_start := block\<rparr>)))))"

definition list_remove :: "heap \<Rightarrow> addr \<Rightarrow> error + heap" where
  "list_remove s block =
     (if list_start s = block \<and> list_end s = block then
        Inr (s\<lparr>list_start := 0, list_end := 0\<rparr>)
      else if list_start s = block then
        bnd (ptr_next s (list_start s)) (\<lambda>n.
        let s1 = s\<lparr>list_start := n\<rparr> in list_clr_prev s1 (list_start s1))
      else if list_end s = block then
        bnd (ptr_prev s (list_end s)) (\<lambda>p.
        let s1 = s\<lparr>list_end := p\<rparr> in list_clr_next s1 (list_end s1))
      else
        bnd (ptr_prev s block) (\<lambda>prev.
        bnd (ptr_next s block) (\<lambda>next.
        bnd (list_set_next s prev next) (\<lambda>s1.
        list_set_prev s1 next prev))))"

section \<open>Miscellaneous procedures\<close>

text \<open>
  Modelled from the spec: the constant \<open>ALIGNMENT\<close> of \<open>mm.h\<close>, which is not among the
  sources; block sizes and payload pointers are aligned to A = 16 bytes.
\<close>

definition ALIGNMENT :: size_t where
  "ALIGNMENT = 16"

definition round_up :: "size_t \<Rightarrow> size_t" where
  "round_up sz = (sz + ALIGNMENT - 1) AND (- ALIGNMENT)"

definition blksz :: "size_t \<Rightarrow> size_t" where
  "blksz sz = round_up (sz + 4)"

text \<open>
  Modelled from the spec: the heap provider \<open>mem_sbrk\<close> of \<open>memlib\<close>, which is not among
  the sources. A request to grow by \<open>incr\<close> bytes either succeeds, returns the address at
  which the new bytes begin (the old break) and moves the break, or it is refused, returns
  the out-of-memory sentinel \<open>(void *)-1\<close> and changes nothing. The provider refuses when
  the break would pass \<open>mem_max\<close>.
\<close>

definition mem_sbrk :: "heap \<Rightarrow> size_t \<Rightarrow> addr \<times> heap" where
  "mem_sbrk s incr =
     (if unat (mem_brk s) + unat incr \<le> unat (mem_max s)
      then (mem_brk s, s\<lparr>mem_brk := mem_brk s + incr\<rparr>)
      else (- 1, s))"

definition morecore :: "heap \<Rightarrow> size_t \<Rightarrow> error + (addr \<times> heap)" where
  "morecore s sz =
     (let (ptr, s1) = mem_sbrk s sz;
          s2 = s1\<lparr>last_ptr := heap_end s1\<rparr> in
      bnd (load s2 (heap_end s2)) (\<lambda>epilogue.
      let s3 = s2\<lparr>heap_end := heap_end s2 + sz\<rparr> in
      bnd (store s3 (heap_end s3) epilogue) (\<lambda>s4.
      if ptr = - 1 then Inr (0, s4) else Inr (last_ptr s4, s4))))"

definition mm_init :: "heap \<Rightarrow> error + (word_t \<times> heap)" where
  "mm_init s =
     (let (ptr, s1) = mem_sbrk s 32 in
      if ptr = 0 then Inr (- 1, s1)
      else
        bnd (bt_make s1 (ptr + 12) 16 USED) (\<lambda>s2.
        let s3 = s2\<lparr>heap_start := ptr + 28, heap_end := ptr + 28\<rparr> in
        bnd (store s3 (heap_end s3) USED) (\<lambda>s4.
        Inr (0, s4\<lparr>list_start := 0, list_end := 0, last_ptr := 0\<rparr>))))"

section \<open>Coalescing\<close>

definition coalesce :: "heap \<Rightarrow> addr \<Rightarrow> error + (addr \<times> heap)" where
  "coalesce s bt =
     bnd (bt_prev s bt) (\<lambda>prev.
     bnd (bt_next s bt) (\<lambda>next.
     bnd (bt_free s next) (\<lambda>nextcheck.
     bnd (bt_get_prevfree s bt) (\<lambda>prevcheck.
     if prevcheck = 0 \<and> \<not> nextcheck then
       bnd (list_add s bt) (\<lambda>s1. Inr (bt, s1))
     else if prevcheck = 0 \<and> nextcheck then
       bnd (list_remove s next) (\<lambda>s1.
       bnd (bt_size s1 bt) (\<lambda>a.
       bnd (bt_size s1 next) (\<lambda>b.
       bnd (bt_make s1 bt (scast (a + b)) FREE) (\<lambda>s2.
       bnd (list_add s2 bt) (\<lambda>s3. Inr (bt, s3))))))
     else if prevcheck \<noteq> 0 \<and> \<not> nextcheck then
       bnd (list_remove s prev) (\<lambda>s1.
       bnd (bt_size s1 prev) (\<lambda>a.
       bnd (bt_size s1 bt) (\<lambda>b.
       bnd (bt_make s1 prev (scast (a + b)) FREE) (\<lambda>s2.
       bnd (list_add s2 prev) (\<lambda>s3. Inr (prev, s3))))))
     else
       bnd (list_remove s prev) (\<lambda>s1.
       bnd (bt_size s1 prev) (\<lambda>a.
       bnd (bt_size s1 bt) (\<lambda>b.
       bnd (bt_size s1 next) (\<lambda>c.
       bnd (bt_make s1 prev (scast (a + b + c)) FREE) (\<lambda>s2.
       bnd (list_add s2 prev) (\<lambda>s3.
       bnd (list_remove s3 next) (\<lambda>s4. Inr (prev, s4))))))))))))"

section \<open>malloc\<close>

text \<open>
  One iteration of the best-fit loop: the new value of \<open>best\<close> and the next \<open>ptr\<close>.
\<close>

definition find_fit_step :: "heap \<Rightarrow> size_t \<Rightarrow> addr \<Rightarrow> addr \<Rightarrow> error + (addr \<times> addr)" where
  "find_fit_step s reqsz best ptr =
     bnd (bt_size s ptr) (\<lambda>ptrsize.
     bnd (if reqsz \<le> scast ptrsize then
            (if best = 0 then Inr ptr
             else bnd (bt_size s best) (\<lambda>bestsize.
                  Inr (if ptrsize <s bestsize then ptr else best)))
          else Inr best) (\<lambda>best'.
     bnd (ptr_next s ptr) (\<lambda>nxt. Inr (best', nxt))))"

text \<open>
  The loop runs until \<open>ptr\<close> is the sentinel address \<open>0x800000000\<close>; on a list that never
  reaches it the loop does not return, which is the value \<open>None\<close>.
\<close>

partial_function (option) find_fit_loop :: "heap \<Rightarrow> size_t \<Rightarrow> addr \<Rightarrow> addr \<Rightarrow> (error + addr) option" where
  "find_fit_loop s reqsz best ptr =
     (if ptr = 0x800000000 then Some (Inr best)
      else case find_fit_step s reqsz best ptr of
             Inl e \<Rightarrow> Some (Inl e)
           | Inr (best', nxt) \<Rightarrow> find_fit_loop s reqsz best' nxt)"

declare find_fit_loop.simps [code]

definition find_fit :: "heap \<Rightarrow> size_t \<Rightarrow> (error + addr) option" where
  "find_fit s reqsz =
     (if list_start s = 0 then Some (Inr 0)
      else find_fit_loop s reqsz 0 (list_start s))"

definition malloc_place :: "heap \<Rightarrow> size_t \<Rightarrow> addr \<Rightarrow> error + (addr \<times> heap)" where
  "malloc_place s asize ptr =
     (if ptr \<noteq> 0 then
        bnd (bt_size s ptr) (\<lambda>bs.
        let blksize = (scast bs :: size_t) in
        if 16 \<le> blksize - asize then
          bnd (bt_get_prevfree s ptr) (\<lambda>pf.
          bnd (bt_make s ptr asize (USED OR pf)) (\<lambda>s1.
          bnd (bt_next s1 ptr) (\<lambda>next.
          bnd (bt_make s1 next (blksize - asize) FREE) (\<lambda>s2.
          bnd (list_remove s2 ptr) (\<lambda>s3.
          bnd (coalesce s3 next) (\<lambda>(r, s4).
          Inr (bt_payload ptr, s4)))))))
        else
          bnd (bt_get_prevfree s ptr) (\<lambda>pf.
          bnd (bt_make s ptr blksize (USED OR pf)) (\<lambda>s1.
          bnd (list_remove s1 ptr) (\<lambda>s2.
          Inr (bt_payload ptr, s2)))))
      else
        bnd (morecore s asize) (\<lambda>(ptr, s1).
        bnd (bt_get_prevfree s1 ptr) (\<lambda>pf.
        bnd (bt_make s1 ptr asize (USED OR pf)) (\<lambda>s2.
        Inr (bt_payload ptr, s2)))))"

definition mm_malloc :: "heap \<Rightarrow> size_t \<Rightarrow> (error + (addr \<times> heap)) option" where
  "mm_malloc s sz =
     (let asize = blksz sz in
      case find_fit s asize of
        None \<Rightarrow> None
      | Some (Inl e) \<Rightarrow> Some (Inl e)
      | Some (Inr ptr) \<Rightarrow> Some (malloc_place s asize ptr))"

section \<open>free\<close>

definition mm_free :: "heap \<Rightarrow> addr \<Rightarrow> error + heap" where
  "mm_free s ptr =
     (if ptr \<noteq> 0 then
        (let block = bt_fromptr ptr in
         bnd (bt_size s block) (\<lambda>n.
         bnd (bt_get_prevfree s block) (\<lambda>pf.
         bnd (bt_make s block (scast n) (FREE OR pf)) (\<lambda>s1.
         bnd (coalesce s1 block) (\<lambda>(r, s2). Inr s2)))))
      else Inr s)"

section \<open>realloc\<close>

text \<open>
  The three branches that grow the block into its free neighbours. Each returns
  \<open>Some\<close> of the result when it applies and \<open>None\<close> when control falls through to the
  next branch (nothing has been written by then).
\<close>

definition realloc_both ::
  "heap \<Rightarrow> addr \<Rightarrow> size_t \<Rightarrow> addr \<Rightarrow> word_t \<Rightarrow> word_t \<Rightarrow> addr \<Rightarrow> error + (addr \<times> heap) option" where
  "realloc_both s old_ptr sz block blocksize asize next =
     bnd (bt_get_prevfree s block) (\<lambda>pf.
     bnd (if pf \<noteq> 0 then bt_free s next else Inr False) (\<lambda>nf.
     if pf \<noteq> 0 \<and> nf then
       bnd (bt_prev s block) (\<lambda>prev.
       bnd (bt_size s prev) (\<lambda>psz.
       bnd (bt_size s next) (\<lambda>nsz.
       let withboth = psz + blocksize + nsz in
       if asize \<le>s withboth then
         bnd (list_remove s next) (\<lambda>s1.
         bnd (list_remove s1 prev) (\<lambda>s2.
         bnd (memcpy s2 (bt_payload prev) old_ptr sz) (\<lambda>s3.
         if 16 \<le>s withboth - asize then
           bnd (bt_make s3 prev (scast asize) USED) (\<lambda>s4.
           bnd (bt_next s4 prev) (\<lambda>freeblock.
           bnd (bt_make s4 freeblock (scast (withboth - asize)) FREE) (\<lambda>s5.
           bnd (coalesce s5 freeblock) (\<lambda>(r, s6).
           Inr (Some (bt_payload prev, s6))))))
         else
           bnd (bt_make s3 prev (scast withboth) USED) (\<lambda>s4.
           Inr (Some (bt_payload prev, s4))))))
       else Inr None)))
     else Inr None))"

definition realloc_left ::
  "heap \<Rightarrow> addr \<Rightarrow> size_t \<Rightarrow> addr \<Rightarrow> word_t \<Rightarrow> word_t \<Rightarrow> error + (addr \<times> heap) option" where
  "realloc_left s old_ptr sz block blocksize asize =
     bnd (bt_get_prevfree s block) (\<lambda>pf.
     if pf \<noteq> 0 then
       bnd (bt_prev s block) (\<lambda>prev.
       bnd (bt_size s prev) (\<lambda>psz.
       let withprev = blocksize + psz in
       if asize \<le>s withprev then
         bnd (list_remove s prev) (\<lambda>s1.
         bnd (memcpy s1 (bt_payload prev) old_ptr sz) (\<lambda>s2.
         if 16 \<le>s withprev - asize then
           bnd (bt_get_prevfree s2 block) (\<lambda>pf2.
           bnd (bt_make s2 prev (scast asize) (USED OR pf2)) (\<lambda>s3.
           bnd (bt_next s3 prev) (\<lambda>prevnext.
           bnd (bt_make s3 prevnext (scast (withprev - asize)) FREE) (\<lambda>s4.
           bnd (coalesce s4 prevnext) (\<lambda>(r, s5).
           Inr (Some (bt_payload prev, s5)))))))
         else
           bnd (bt_get_prevfree s2 block) (\<lambda>pf2.
           bnd (bt_make s2 prev (scast withprev) (USED OR pf2)) (\<lambda>s3.
           Inr (Some (bt_payload prev, s3))))))
       else Inr None))
     else Inr None)"

definition realloc_right ::
  "heap \<Rightarrow> addr \<Rightarrow> addr \<Rightarrow> word_t \<Rightarrow> word_t \<Rightarrow> addr \<Rightarrow> error + (addr \<times> heap) option" where
  "realloc_right s old_ptr block blocksize asize next =
     bnd (bt_free s next) (\<lambda>nf.
     if nf then
       bnd (bt_size s next) (\<lambda>nsz.
       let withnext = blocksize + nsz in
       if asize \<le>s withnext then
         bnd (list_remove s next) (\<lambda>s1.
         if 16 \<le>s withnext - asize then
           bnd (bt_get_prevfree s1 block) (\<lambda>pf.
           bnd (bt_make s1 block (scast asize) (USED OR pf)) (\<lambda>s2.
           bnd (bt_next s2 block) (\<lambda>new.
           bnd (bt_make s2 new (scast (withnext - asize)) FREE) (\<lambda>s3.
           bnd (coalesce s3 new) (\<lambda>(r, s4).
           Inr (Some (old_ptr, s4)))))))
         else
           bnd (bt_get_prevfree s1 block) (\<lambda>pf.
           bnd (bt_make s1 block (scast withnext) (USED OR pf)) (\<lambda>s2.
           Inr (Some (old_ptr, s2)))))
       else Inr None)
     else Inr None)"

text \<open>
  The part of \<open>realloc\<close> that works in place: shrinking, growing at the end of the heap,
  growing into the neighbours. \<open>None\<close> means that the general case is to run.
\<close>

definition realloc_inplace :: "heap \<Rightarrow> addr \<Rightarrow> size_t \<Rightarrow> error + (addr \<times> heap) option" where
  "realloc_inplace s old_ptr sz =
     (let block = bt_fromptr old_ptr in
      bnd (bt_size s block) (\<lambda>blocksize.
      let asize = (ucast (blksz sz) :: word_t) in
      if asize \<le>s blocksize then
        (let rest = blocksize - asize in
         if 16 \<le>s rest then
           bnd (bt_get_prevfree s block) (\<lambda>pf.
           bnd (bt_make s block (scast asize) (USED OR pf)) (\<lambda>s1.
           bnd (bt_next s1 block) (\<lambda>nb.
           bnd (bt_make s1 nb (scast rest) FREE) (\<lambda>s2.
           bnd (bt_next s2 block) (\<lambda>nb2.
           bnd (coalesce s2 nb2) (\<lambda>(r, s3).
           Inr (Some (old_ptr, s3))))))))
         else Inr (Some (old_ptr, s)))
      else
        bnd (bt_next s block) (\<lambda>next.
        if next = heap_end s then
          bnd (morecore s (scast (asize - blocksize))) (\<lambda>(r, s1).
          bnd (bt_get_prevfree s1 block) (\<lambda>pf.
          bnd (bt_make s1 block (scast asize) (USED OR pf)) (\<lambda>s2.
          Inr (Some (old_ptr, s2)))))
        else
          bnd (realloc_both s old_ptr sz block blocksize asize next) (\<lambda>r1.
          case r1 of Some x \<Rightarrow> Inr (Some x) | None \<Rightarrow>
          bnd (realloc_left s old_ptr sz block blocksize asize) (\<lambda>r2.
          case r2 of Some x \<Rightarrow> Inr (Some x) | None \<Rightarrow>
          realloc_right s old_ptr block blocksize asize next)))))"

definition mm_realloc :: "heap \<Rightarrow> addr \<Rightarrow> size_t \<Rightarrow> (error + (addr \<times> heap)) option" where
  "mm_realloc s old_ptr sz =
     (if old_ptr = 0 then mm_malloc s sz
      else if sz = 0 then Some (bnd (mm_free s old_ptr) (\<lambda>s1. Inr (0, s1)))
      else
        case realloc_inplace s old_ptr sz of
          Inl e \<Rightarrow> Some (Inl e)
        | Inr (Some x) \<Rightarrow> Some (Inr x)
        | Inr None \<Rightarrow>
            (case mm_malloc s sz of
               None \<Rightarrow> None
             | Some (Inl e) \<Rightarrow> Some (Inl e)
             | Some (Inr (new_ptr, s1)) \<Rightarrow>
                 Some (bnd (memcpy s1 new_ptr old_ptr sz) (\<lambda>s2.
                       bnd (mm_free s2 old_ptr) (\<lambda>s3.
                       Inr (new_ptr, s3))))))"

section \<open>calloc\<close>

definition mm_calloc :: "heap \<Rightarrow> size_t \<Rightarrow> size_t \<Rightarrow> (error + (addr \<times> heap)) option" where
  "mm_calloc s nmemb sz =
     (let bytes = nmemb * sz in
      case mm_malloc s bytes of
        None \<Rightarrow> None
      | Some (Inl e) \<Rightarrow> Some (Inl e)
      | Some (Inr (new_ptr, s1)) \<Rightarrow>
          Some (if new_ptr \<noteq> 0 then bnd (memset s1 new_ptr 0 bytes) (\<lambda>s2. Inr (new_ptr, s2))
                else Inr (new_ptr, s1)))"

section \<open>Observing results\<close>

definition returned :: "(error + (addr \<times> heap)) option \<Rightarrow> addr option" where
  "returned r = (case r of Some (Inr (p, s)) \<Rightarrow> Some p | _ \<Rightarrow> None)"


definition final_heap :: "(error + (addr \<times> heap)) option \<Rightarrow> heap option" where
  "final_heap r = (case r of Some (Inr (p, s)) \<Rightarrow> Some s | _ \<Rightarrow> None)"

section \<open>Concrete heaps\<close>

text \<open>
  \<open>boot\<close> is the process before \<open>mm_init\<close>: the statics are zero and the provider has
  handed out nothing of its region \<open>[0x800000000, 0x800001000)\<close>. \<open>heap0\<close> is the heap
  that \<open>mm_init\<close> builds there (prologue at offset 12, epilogue at offset 28),
  \<open>heap1\<close> the heap after one allocation of a 16-byte block.
\<close>

definition boot :: heap where
  "boot = \<lparr>heap_start = 0, heap_end = 0, last_ptr = 0, list_start = 0, list_end = 0,
     mem = (\<lambda>_. 0), mem_lo = 0x800000000, mem_brk = 0x800000000, mem_max = 0x800001000\<rparr>"

definition heap0 :: heap where
  "heap0 = \<lparr>heap_start = 0x80000001C, heap_end = 0x80000001C, last_ptr = 0, list_start = 0,
     list_end = 0, mem = (\<lambda>_. 0)(0x80000000C := 17, 0x80000001C := 1),
     mem_lo = 0x800000000, mem_brk = 0x800000020, mem_max = 0x800001000\<rparr>"

definition heap1 :: heap where
  "heap1 = \<lparr>heap_start = 0x80000001C, heap_end = 0x80000002C, last_ptr = 0x80000001C,
     list_start = 0, list_end = 0,
     mem = (\<lambda>_. 0)(0x80000000C := 17, 0x80000001C := 17, 0x80000002C := 1),
     mem_lo = 0x800000000, mem_brk = 0x800000030, mem_max = 0x800001000\<rparr>"

definition heap1_zeroed :: heap where
  "heap1_zeroed = heap1\<lparr>mem := put_bytes (mem heap1) 0x800000020 8 (\<lambda>i. 0)\<rparr>"

text \<open>The same heaps with a provider that has nothing left to give.\<close>

definition heap0_full :: heap where
  "heap0_full = heap0\<lparr>mem_max := 0x800000020\<rparr>"

definition heap1_full :: heap where
  "heap1_full = heap1\<lparr>mem_max := 0x800000030\<rparr>"

text \<open>Two used 16-byte blocks, provider exhausted.\<close>

definition heap2_full :: heap where
  "heap2_full = \<lparr>heap_start = 0x80000001C, heap_end = 0x80000003C, last_ptr = 0x80000002C,
     list_start = 0, list_end = 0,
     mem = (\<lambda>_. 0)(0x80000000C := 17, 0x80000001C := 17, 0x80000002C := 17, 0x80000003C := 1),
     mem_lo = 0x800000000, mem_brk = 0x800000040, mem_max = 0x800000040\<rparr>"

text \<open>
  A provider whose break lies beyond the epilogue (some other client has extended it) and
  that is exhausted.
\<close>

definition heap_gap :: heap where
  "heap_gap = heap0\<lparr>mem_brk := 0x800000040, mem_max := 0x800000040\<rparr>"



section \<open>Abstractions of the heap\<close>

subsection \<open>The free list and the best fit\<close>

text \<open>
  The free list as the blocks that the next links visit, from \<open>p\<close> to the sentinel
  address \<open>0x800000000\<close>; an empty list is a null \<open>list_start\<close>.
\<close>

fun fl_path :: "heap \<Rightarrow> addr \<Rightarrow> addr list \<Rightarrow> bool" where
  "fl_path s p [] = (p = 0x800000000)"
| "fl_path s p (b # bs) =
     (p = b \<and> b \<noteq> 0x800000000 \<and> b \<noteq> 0 \<and> valid s b \<and> valid s (b + 4)
      \<and> fl_path s (ptr_address (mem s (b + 4))) bs)"

definition free_list :: "heap \<Rightarrow> addr list \<Rightarrow> bool" where
  "free_list s bs = (if bs = [] then list_start s = 0 else fl_path s (list_start s) bs)"

definition hsize :: "heap \<Rightarrow> addr \<Rightarrow> word_t" where
  "hsize s b = mem s b AND NOT (USED OR PREVFREE)"

definition sized :: "heap \<Rightarrow> addr list \<Rightarrow> (addr \<times> nat) list" where
  "sized s bs = map (\<lambda>b. (b, unat (hsize s b))) bs"

text \<open>
  The specification's words for the fit selection: among all blocks with size at least the
  requested one, the one with the smallest size; the first such block in list order; null
  if there is none.
\<close>

definition best_fit_opt :: "nat \<Rightarrow> (addr \<times> nat) list \<Rightarrow> (addr \<times> nat) option" where
  "best_fit_opt a bs =
     (let fits = filter (\<lambda>(b, z). a \<le> z) bs in
      if fits = [] then None
      else Some (hd (filter (\<lambda>(b, z). z = Min (set (map snd fits))) fits)))"

definition best_fit_spec :: "nat \<Rightarrow> (addr \<times> nat) list \<Rightarrow> addr" where
  "best_fit_spec a bs = (case best_fit_opt a bs of None \<Rightarrow> 0 | Some (b, z) \<Rightarrow> b)"

text \<open>
  What the loop of \<open>find_fit\<close> knows about \<open>best\<close> after it has visited a prefix of the
  list: it is null, or a readable block of the prefix together with its size.
\<close>

definition tracks :: "heap \<Rightarrow> addr \<Rightarrow> (addr \<times> nat) option \<Rightarrow> bool" where
  "tracks s best r = (case r of
       None \<Rightarrow> best = 0
     | Some (b', z') \<Rightarrow> best = b' \<and> b' \<noteq> 0 \<and> valid s b' \<and> z' = unat (hsize s b') \<and> z' < 2 ^ 31)"

text \<open>
  A heap with three free blocks of sizes 48, 32 and 32 at offsets 28, 92 and 140, freed in
  the order 140, 92, 28 (so the list visits 28, 92, 140), separated by used 16-byte blocks.
\<close>

definition heap_three_free :: heap where
  "heap_three_free = \<lparr>heap_start = 0x80000001C, heap_end = 0x8000000BC, last_ptr = 0x8000000AC,
     list_start = 0x80000001C, list_end = 0x80000008C,
     mem = (\<lambda>_. 0)(0x80000000C := 17,
        0x80000001C := 48, 0x800000020 := 92, 0x800000048 := 48,
        0x80000004C := 19,
        0x80000005C := 32, 0x800000060 := 140, 0x800000064 := 28, 0x800000078 := 32,
        0x80000007C := 19,
        0x80000008C := 32, 0x800000094 := 92, 0x8000000A8 := 32,
        0x8000000AC := 19,
        0x8000000BC := 1),
     mem_lo = 0x800000000, mem_brk = 0x8000000C0, mem_max = 0x800001000\<rparr>"
section \<open>The heap invariants of the specification\<close>

text \<open>
  The invariants I1 to I5 are stated over two lists: the block list \<open>bs\<close>, the addresses
  of the headers from \<open>heap_start\<close> up to the epilogue at \<open>heap_end\<close>, and the free list
  \<open>fl\<close>, the addresses of the list nodes in order from \<open>list_start\<close>.

  \<^item> \<open>is_free\<close>, \<open>pfree\<close> and \<open>bsize\<close> read the USED bit, the PREVFREE bit and the size of a
    header word; \<open>footer\<close> is the address of the last word of the block.
  \<^item> \<open>chain m a bs e\<close>: the blocks \<open>bs\<close> lie one after the other from \<open>a\<close> to \<open>e\<close>; every
    size is at least 16, a multiple of 16 (I4) and below \<open>2 ^ 31\<close> (header words are
    \<open>int32_t\<close>); every header lies 12 modulo 16, four bytes below its 16-aligned payload.
  \<^item> \<open>tags m pf bs\<close>, where \<open>pf\<close> says whether the block before the first of \<open>bs\<close> is
    free: the PREVFREE bit of every block says whether its predecessor is free (I2), and
    a free block has a footer equal to its header (I1) and no free predecessor (I3).
  \<^item> \<open>lastfree m pf bs\<close>: whether the last block of \<open>bs\<close> is free (\<open>pf\<close> for no block).
  \<^item> \<open>links\<close>, \<open>node\<close> and \<open>dll\<close>: the list nodes \<open>fl\<close> are distinct, lie where their 32-bit
    offsets can name them, \<open>list_start\<close> and \<open>list_end\<close> are the first and the last of them
    (both null for the empty list), and the link words at \<open>b + 4\<close> (next) and \<open>b + 8\<close>
    (prev) hold the offsets of the neighbours in \<open>fl\<close>, 0 at both ends (I5).
  \<^item> \<open>region\<close>: the heap lies inside the provider's region, which begins at or above
    \<open>0x800000000\<close> and ends at or below \<open>0x800000000 + 2 ^ 31\<close>; the epilogue header lies 12
    modulo 16.
  \<^item> \<open>epilogue s pf\<close>: the header at \<open>heap_end\<close> is USED and its PREVFREE bit is \<open>pf\<close>.
  \<^item> \<open>heap_inv s bs fl\<close>: I1 to I5 hold in \<open>s\<close>, whose blocks are \<open>bs\<close> and whose free list is
    \<open>fl\<close>; the free list holds exactly the free blocks (I5).
\<close>

definition is_free :: "(addr \<Rightarrow> word_t) \<Rightarrow> addr \<Rightarrow> bool" where
  "is_free m b = (m b AND USED = 0)"

definition pfree :: "(addr \<Rightarrow> word_t) \<Rightarrow> addr \<Rightarrow> bool" where
  "pfree m b = (m b AND PREVFREE \<noteq> 0)"

definition bsize :: "(addr \<Rightarrow> word_t) \<Rightarrow> addr \<Rightarrow> nat" where
  "bsize m b = unat (m b AND NOT (USED OR PREVFREE))"

definition footer :: "(addr \<Rightarrow> word_t) \<Rightarrow> addr \<Rightarrow> addr" where
  "footer m b = b + of_nat (bsize m b) - 4"

fun chain :: "(addr \<Rightarrow> word_t) \<Rightarrow> addr \<Rightarrow> addr list \<Rightarrow> addr \<Rightarrow> bool" where
  "chain m a [] e = (a = e)"
| "chain m a (b # bs) e =
     (a = b \<and> unat b mod 16 = 12 \<and> 16 \<le> bsize m b \<and> bsize m b mod 16 = 0
      \<and> bsize m b < 2 ^ 31 \<and> unat b + bsize m b \<le> unat e
      \<and> chain m (b + of_nat (bsize m b)) bs e)"

fun tags :: "(addr \<Rightarrow> word_t) \<Rightarrow> bool \<Rightarrow> addr list \<Rightarrow> bool" where
  "tags m pf [] = True"
| "tags m pf (b # bs) =
     (pfree m b = pf \<and> (is_free m b \<longrightarrow> \<not> pf \<and> m (footer m b) = m b)
      \<and> tags m (is_free m b) bs)"

definition lastfree :: "(addr \<Rightarrow> word_t) \<Rightarrow> bool \<Rightarrow> addr list \<Rightarrow> bool" where
  "lastfree m pf bs = (if bs = [] then pf else is_free m (last bs))"

fun links :: "(addr \<Rightarrow> word_t) \<Rightarrow> word_t \<Rightarrow> addr list \<Rightarrow> word_t \<Rightarrow> bool" where
  "links m p [] q = True"
| "links m p [b] q = (m (b + 8) = p \<and> m (b + 4) = q)"
| "links m p (b # c # r) q =
     (m (b + 8) = p \<and> m (b + 4) = ptr_size c \<and> links m (ptr_size b) (c # r) q)"

definition node :: "heap \<Rightarrow> addr \<Rightarrow> bool" where
  "node s b = (unat b mod 16 = 12 \<and> 34359738368 \<le> unat b \<and> unat b < 34359738368 + 2 ^ 31
     \<and> valid s (b + 4) \<and> valid s (b + 8))"

definition dll :: "heap \<Rightarrow> addr list \<Rightarrow> bool" where
  "dll s fl = (distinct fl \<and> list_all (node s) fl
     \<and> (if fl = [] then list_start s = 0 \<and> list_end s = 0
         else list_start s = hd fl \<and> list_end s = last fl \<and> links (mem s) 0 fl 0))"

definition region :: "heap \<Rightarrow> bool" where
  "region s = (34359738368 \<le> unat (mem_lo s) \<and> unat (mem_lo s) mod 4 = 0
     \<and> unat (mem_lo s) + 4 \<le> unat (heap_start s)
     \<and> unat (heap_end s) mod 16 = 12
     \<and> unat (heap_end s) + 4 \<le> unat (mem_brk s)
     \<and> unat (mem_brk s) \<le> 34359738368 + 2 ^ 31)"

definition epilogue :: "heap \<Rightarrow> bool \<Rightarrow> bool" where
  "epilogue s pf = (\<not> is_free (mem s) (heap_end s) \<and> pfree (mem s) (heap_end s) = pf)"

definition heap_inv :: "heap \<Rightarrow> addr list \<Rightarrow> addr list \<Rightarrow> bool" where
  "heap_inv s bs fl =
     (region s \<and> chain (mem s) (heap_start s) bs (heap_end s)
      \<and> tags (mem s) False bs \<and> epilogue s (lastfree (mem s) False bs)
      \<and> dll s fl \<and> set fl = {b \<in> set bs. is_free (mem s) b})"

text \<open>
  \<open>freed_inv s xs B ys fl\<close> is the state in which \<open>coalesce\<close> is called on \<open>B\<close>: the blocks
  are \<open>xs @ B # ys\<close>, and \<open>B\<close> has just been written as a FREE block by \<open>bt_make\<close>, so its
  footer equals its header and the PREVFREE bit of its successor is set, but \<open>B\<close> is not on
  the free list yet and may have free neighbours. Every other block is as the invariants
  want it; a free successor still has the footer it had before its header received the
  PREVFREE bit.
\<close>

definition freed_inv :: "heap \<Rightarrow> addr list \<Rightarrow> addr \<Rightarrow> addr list \<Rightarrow> addr list \<Rightarrow> bool" where
  "freed_inv s xs B ys fl =
     (region s \<and> chain (mem s) (heap_start s) (xs @ B # ys) (heap_end s)
      \<and> tags (mem s) False xs
      \<and> pfree (mem s) B = lastfree (mem s) False xs
      \<and> is_free (mem s) B \<and> mem s (footer (mem s) B) = mem s B
      \<and> (case ys of [] \<Rightarrow> True | N # ys' \<Rightarrow> pfree (mem s) N \<and> tags (mem s) (is_free (mem s) N) ys')
      \<and> epilogue s (lastfree (mem s) True ys)
      \<and> dll s fl \<and> set fl = {b \<in> set (xs @ ys). is_free (mem s) b})"

text \<open>
  Following the specification: the four rows of its table for \<open>coalesce\<close>, selected by
  whether the block before \<open>B\<close> and the block after \<open>B\<close> are free. A row gives the block
  returned, the size it has afterwards, the block list afterwards and the free list
  afterwards (the rewritten block is added at the head of the list, the absorbed
  neighbours are removed from it).
\<close>

definition coalesce_table ::
  "(addr \<Rightarrow> word_t) \<Rightarrow> addr list \<Rightarrow> addr \<Rightarrow> addr list \<Rightarrow> addr list
     \<Rightarrow> addr \<times> nat \<times> addr list \<times> addr list" where
  "coalesce_table m xs B ys fl =
     (let prev_free = (xs \<noteq> [] \<and> is_free m (last xs));
          next_free = (ys \<noteq> [] \<and> is_free m (hd ys))
      in if \<not> prev_free \<and> \<not> next_free then
           (B, bsize m B, xs @ B # ys, B # fl)
         else if \<not> prev_free \<and> next_free then
           (B, bsize m B + bsize m (hd ys), xs @ B # tl ys, B # remove1 (hd ys) fl)
         else if prev_free \<and> \<not> next_free then
           (last xs, bsize m (last xs) + bsize m B, xs @ ys,
            last xs # remove1 (last xs) fl)
         else
           (last xs, bsize m (last xs) + bsize m B + bsize m (hd ys), xs @ tl ys,
            last xs # remove1 (hd ys) (remove1 (last xs) fl)))"

text \<open>
  What the list operations leave alone: the bounds of the heap and of the provider, and
  every word that lies 8 or 12 modulo 16, where the footers and the headers are
  (\<open>list_step\<close> between two heaps, \<open>tagsame\<close> between two memories).
\<close>

definition list_step :: "heap \<Rightarrow> heap \<Rightarrow> bool" where
  "list_step s s' =
     (heap_start s' = heap_start s \<and> heap_end s' = heap_end s \<and> mem_lo s' = mem_lo s
      \<and> mem_brk s' = mem_brk s
      \<and> (\<forall>x. unat x mod 16 = 8 \<or> unat x mod 16 = 12 \<longrightarrow> mem s' x = mem s x))"

definition tagsame :: "(addr \<Rightarrow> word_t) \<Rightarrow> (addr \<Rightarrow> word_t) \<Rightarrow> bool" where
  "tagsame m m' = (\<forall>x. unat x mod 16 = 8 \<or> unat x mod 16 = 12 \<longrightarrow> m' x = m x)"

text \<open>
  Three adjacent 16-byte blocks followed by a used one, as \<open>mm_free\<close> hands them to
  \<open>coalesce\<close>: the outer two are free and on the list, the middle one, at \<open>0x80000002C\<close>,
  has just been written as FREE.
\<close>

definition heap_freed_mid :: heap where
  "heap_freed_mid = \<lparr>heap_start = 0x80000001C, heap_end = 0x80000005C, last_ptr = 0x80000004C,
     list_start = 0x80000003C, list_end = 0x80000001C,
     mem = (\<lambda>_. 0)(0x80000000C := 17,
        0x80000001C := 16, 0x800000024 := 60, 0x800000028 := 16,
        0x80000002C := 18, 0x800000038 := 18,
        0x80000003C := 18, 0x800000040 := 28, 0x800000048 := 16,
        0x80000004C := 19,
        0x80000005C := 1),
     mem_lo = 0x800000000, mem_brk = 0x800000060, mem_max = 0x800001000\<rparr>"

section \<open>A sequence of public calls\<close>

text \<open>
  The heaps that the public calls build one after the other from \<open>heap0\<close>, the heap of
  \<open>mm_init\<close>: \<open>seq1\<close> to \<open>seq5\<close> after \<open>malloc(12)\<close>, \<open>malloc(12)\<close>, \<open>malloc(28)\<close>, \<open>malloc(12)\<close>
  and \<open>malloc(12)\<close>, which return the payloads at the offsets \<open>0x20\<close>, \<open>0x30\<close>, \<open>0x40\<close>,
  \<open>0x60\<close> and \<open>0x70\<close> (blocks of 16, 16, 32, 16 and 16 bytes); \<open>seq6\<close> after \<open>free\<close> of the
  second payload; \<open>seq7\<close> after another \<open>malloc(12)\<close>, which takes that block again (the
  footer 16 of its time as a free block stays in its last word, at offset \<open>0x38\<close>);
  \<open>seq8\<close> after \<open>free\<close> of the first payload; \<open>seq9\<close> after \<open>free\<close> of the third payload.
\<close>

definition seq1 :: heap where
  "seq1 = \<lparr>heap_start = 0x80000001C, heap_end = 0x80000002C, last_ptr = 0x80000001C,
     list_start = 0, list_end = 0,
     mem = (\<lambda>_. 0)(0x80000000C := 17, 0x80000001C := 17, 0x80000002C := 1),
     mem_lo = 0x800000000, mem_brk = 0x800000030, mem_max = 0x800001000\<rparr>"

definition seq2 :: heap where
  "seq2 = \<lparr>heap_start = 0x80000001C, heap_end = 0x80000003C, last_ptr = 0x80000002C,
     list_start = 0, list_end = 0,
     mem = (\<lambda>_. 0)(0x80000000C := 17, 0x80000001C := 17, 0x80000002C := 17,
        0x80000003C := 1),
     mem_lo = 0x800000000, mem_brk = 0x800000040, mem_max = 0x800001000\<rparr>"

definition seq3 :: heap where
  "seq3 = \<lparr>heap_start = 0x80000001C, heap_end = 0x80000005C, last_ptr = 0x80000003C,
     list_start = 0, list_end = 0,
     mem = (\<lambda>_. 0)(0x80000000C := 17, 0x80000001C := 17, 0x80000002C := 17,
        0x80000003C := 33, 0x80000005C := 1),
     mem_lo = 0x800000000, mem_brk = 0x800000060, mem_max = 0x800001000\<rparr>"

definition seq4 :: heap where
  "seq4 = \<lparr>heap_start = 0x80000001C, heap_end = 0x80000006C, last_ptr = 0x80000005C,
     list_start = 0, list_end = 0,
     mem = (\<lambda>_. 0)(0x80000000C := 17, 0x80000001C := 17, 0x80000002C := 17,
        0x80000003C := 33, 0x80000005C := 17, 0x80000006C := 1),
     mem_lo = 0x800000000, mem_brk = 0x800000070, mem_max = 0x800001000\<rparr>"

definition seq5 :: heap where
  "seq5 = \<lparr>heap_start = 0x80000001C, heap_end = 0x80000007C, last_ptr = 0x80000006C,
     list_start = 0, list_end = 0,
     mem = (\<lambda>_. 0)(0x80000000C := 17, 0x80000001C := 17, 0x80000002C := 17,
        0x80000003C := 33, 0x80000005C := 17, 0x80000006C := 17, 0x80000007C := 1),
     mem_lo = 0x800000000, mem_brk = 0x800000080, mem_max = 0x800001000\<rparr>"

definition seq6 :: heap where
  "seq6 = \<lparr>heap_start = 0x80000001C, heap_end = 0x80000007C, last_ptr = 0x80000006C,
     list_start = 0x80000002C, list_end = 0x80000002C,
     mem = (\<lambda>_. 0)(0x80000000C := 17, 0x80000001C := 17, 0x80000002C := 16,
        0x800000038 := 16, 0x80000003C := 35, 0x80000005C := 17, 0x80000006C := 17,
        0x80000007C := 1),
     mem_lo = 0x800000000, mem_brk = 0x800000080, mem_max = 0x800001000\<rparr>"

definition seq7 :: heap where
  "seq7 = \<lparr>heap_start = 0x80000001C, heap_end = 0x80000007C, last_ptr = 0x80000006C,
     list_start = 0, list_end = 0,
     mem = (\<lambda>_. 0)(0x80000000C := 17, 0x80000001C := 17, 0x80000002C := 17,
        0x800000038 := 16, 0x80000003C := 33, 0x80000005C := 17, 0x80000006C := 17,
        0x80000007C := 1),
     mem_lo = 0x800000000, mem_brk = 0x800000080, mem_max = 0x800001000\<rparr>"

definition seq8 :: heap where
  "seq8 = \<lparr>heap_start = 0x80000001C, heap_end = 0x80000007C, last_ptr = 0x80000006C,
     list_start = 0x80000001C, list_end = 0x80000001C,
     mem = (\<lambda>_. 0)(0x80000000C := 17, 0x80000001C := 16, 0x800000028 := 16,
        0x80000002C := 19, 0x800000038 := 16, 0x80000003C := 33, 0x80000005C := 17,
        0x80000006C := 17, 0x80000007C := 1),
     mem_lo = 0x800000000, mem_brk = 0x800000080, mem_max = 0x800001000\<rparr>"

definition seq9 :: heap where
  "seq9 = \<lparr>heap_start = 0x80000001C, heap_end = 0x80000007C, last_ptr = 0x80000006C,
     list_start = 0x80000003C, list_end = 0x80000001C,
     mem = (\<lambda>_. 0)(0x80000000C := 17, 0x80000001C := 16, 0x800000024 := 60,
        0x800000028 := 16, 0x80000002C := 19, 0x800000038 := 16, 0x80000003C := 32,
        0x800000040 := 28, 0x800000058 := 32, 0x80000005C := 19, 0x80000006C := 17,
        0x80000007C := 1),
     mem_lo = 0x800000000, mem_brk = 0x800000080, mem_max = 0x800001000\<rparr>"


section \<open>Basic facts\<close>

lemma bnd_Inr [simp]: "bnd (Inr x) f = f x"
  by (simp add: bnd_def)

lemma bnd_Inl [simp]: "bnd (Inl e) f = Inl e"
  by (simp add: bnd_def)

lemma bnd_eq_Inr: "(bnd m f = Inr y) = (\<exists>x. m = Inr x \<and> f x = Inr y)"
  by (cases m) simp_all

lemma load_valid [simp]: "valid s a \<Longrightarrow> load s a = Inr (mem s a)"
  by (simp add: load_def)

lemma load_eq_Inr: "(load s a = Inr w) = (valid s a \<and> w = mem s a)"
  by (auto simp: load_def)

lemma store_eq_Inr: "(store s a w = Inr s') = (valid s a \<and> s' = s\<lparr>mem := (mem s)(a := w)\<rparr>)"
  by (auto simp: store_def)

lemma valid_plus4: "valid s a \<Longrightarrow> a + 4 \<noteq> 0"
  unfolding valid_def by unat_arith

lemmas bt_defs = bt_size_def bt_used_def bt_free_def bt_footer_def bt_fromptr_def
  bt_get_prevfree_def bt_clr_prevfree_def bt_set_prevfree_def bt_payload_def bt_next_def
  bt_prev_def bt_make_def FREE_def USED_def PREVFREE_def

lemmas list_defs = ptr_address_def ptr_size_def ptr_next_def ptr_prev_def list_set_prev_def
  list_set_next_def list_clr_prev_def list_clr_next_def list_add_def list_remove_def

lemmas mem_defs = load_def store_def valid_def

lemmas alloc_defs = mm_malloc_def find_fit_def malloc_place_def morecore_def mem_sbrk_def
  blksz_def round_up_def ALIGNMENT_def

lemmas realloc_defs = mm_realloc_def realloc_inplace_def realloc_both_def realloc_left_def
  realloc_right_def

subsection \<open>The concrete heaps are heaps of the program\<close>

lemma mm_init_boot: "mm_init boot = Inr (0, heap0)"
  by (simp add: mm_init_def boot_def heap0_def mem_sbrk_def bt_defs mem_defs)


lemma malloc0_heap1:
  "final_heap (mm_malloc heap1 0) = Some (heap2_full\<lparr>mem_max := 0x800001000\<rparr>)"
  by (simp add: final_heap_def alloc_defs heap1_def heap2_full_def bt_defs mem_defs)

lemma bt_size_heap1: "bt_size heap1 (bt_fromptr 0x800000020) = Inr 16"
  by (simp add: heap1_def bt_defs mem_defs)

subsection \<open>Bytes inside words\<close>

lemma and3_cases: "(a :: addr) AND 3 = 0 \<or> a AND 3 = 1 \<or> a AND 3 = 2 \<or> a AND 3 = 3"
proof -
  have "a AND 3 \<le> 3" by (rule word_and_le1)
  then have "unat (a AND 3) \<le> 3" by (simp add: word_le_nat_alt)
  then have "unat (a AND 3) = 0 \<or> unat (a AND 3) = 1 \<or> unat (a AND 3) = 2 \<or> unat (a AND 3) = 3"
    by arith
  then show ?thesis
    by (simp add: word_unat_eq_iff)
qed

lemma split_addr: "(a :: addr) = (a AND NOT 3) + (a AND 3)"
proof -
  have "(a AND NOT 3) + (a AND 3) = (a AND NOT 3) OR (a AND 3)"
    by (rule disjunctive_add_eq_or) (rule bit_word_eqI, simp add: bit_simps)
  also have "\<dots> = a"
    by (rule bit_word_eqI) (auto simp: bit_simps)
  finally show ?thesis by simp
qed

lemma byte0: "ucast (cat4 b0 b1 b2 b3) = b0"
  unfolding cat4_def by (rule bit_word_eqI) (auto simp: bit_simps dest: bit_imp_le_length)

lemma byte1: "ucast (drop_bit 8 (cat4 b0 b1 b2 b3)) = b1"
  unfolding cat4_def by (rule bit_word_eqI) (auto simp: bit_simps dest: bit_imp_le_length)

lemma byte2: "ucast (drop_bit 16 (cat4 b0 b1 b2 b3)) = b2"
  unfolding cat4_def by (rule bit_word_eqI) (auto simp: bit_simps dest: bit_imp_le_length)

lemma byte3: "ucast (drop_bit 24 (cat4 b0 b1 b2 b3)) = b3"
  unfolding cat4_def by (rule bit_word_eqI) (auto simp: bit_simps dest: bit_imp_le_length)

lemma get_byte_put_bytes: "get_byte (put_bytes m p n f) a = new_byte m p n f a"
proof -
  let ?c = "a AND NOT 3"
  have a: "a = ?c + (a AND 3)" by (rule split_addr)
  from and3_cases [of a] show ?thesis
  proof (elim disjE)
    assume k: "a AND 3 = 0"
    with a have "a = ?c" by simp
    then show ?thesis using k by (simp add: get_byte_def put_bytes_def byte0)
  next
    assume k: "a AND 3 = 1"
    with a have "?c + 1 = a" by simp
    then show ?thesis using k by (simp add: get_byte_def put_bytes_def byte1)
  next
    assume k: "a AND 3 = 2"
    with a have "?c + 2 = a" by simp
    then show ?thesis using k by (simp add: get_byte_def put_bytes_def byte2)
  next
    assume k: "a AND 3 = 3"
    with a have "?c + 3 = a" by simp
    then show ?thesis using k by (simp add: get_byte_def put_bytes_def byte3)
  qed
qed

lemma memset_bytes:
  assumes "memset s p c n = Inr s'" "i < n"
  shows "get_byte (mem s') (p + i) = c"
proof -
  from assms have "n \<noteq> 0" by auto
  with assms(1) have "mem s' = put_bytes (mem s) p n (\<lambda>i. c)"
    by (auto simp: memset_def split: if_splits)
  with assms(2) show ?thesis
    by (simp add: get_byte_put_bytes new_byte_def)
qed

subsection \<open>Rounding up to the alignment\<close>

lemma and_not_mask_word: "(y :: 'a::len word) AND NOT (mask n) = push_bit n (drop_bit n y)"
  by (rule bit_word_eqI) (auto simp: bit_simps)

lemma and_neg16: "(y :: 64 word) AND - 16 = push_bit 4 (drop_bit 4 y)"
proof -
  have "(- 16 :: 64 word) = NOT (mask 4)" by (simp add: mask_eq_exp_minus_1)
  then show ?thesis
    by (simp only: and_not_mask_word)
qed

lemma unat_and_neg16: "unat ((y :: 64 word) AND - 16) = unat y div 16 * 16"
proof -
  have "unat y < 2 ^ 64" using unsigned_less [of y] by simp
  then have b: "unat y div 16 * 16 < 2 ^ 64" by arith
  have "unat (y div 16 * 16) = (unat (y div 16) * unat (16 :: 64 word)) mod 2 ^ 64"
    by (simp only: unat_word_ariths len_of_numeral_defs) simp
  then have "unat (y div 16 * 16) = (unat y div 16 * 16) mod 2 ^ 64"
    by (simp add: unat_div)
  with b have "unat (y div 16 * 16) = unat y div 16 * 16" by simp
  then show ?thesis
    by (simp add: and_neg16 push_bit_eq_mult drop_bit_eq_div)
qed

lemma unat_blksz:
  assumes "unat n + 19 < 2 ^ 64"
  shows "unat (blksz n) = (unat n + 4 + 15) div 16 * 16"
proof -
  have e: "unat (n + 19) = unat n + 19"
    using assms by (simp add: unat_word_ariths)
  have "blksz n = (n + 19) AND - 16"
    by (simp add: blksz_def round_up_def ALIGNMENT_def add.commute)
  then have "unat (blksz n) = unat (n + 19) div 16 * 16"
    by (simp only: unat_and_neg16)
  with e show ?thesis by simp
qed


lemma align_exact:
  fixes j :: nat
  assumes "16 \<le> j" "j mod 16 = 0"
  shows "(j - 4 + 4 + 15) div 16 * 16 = j"
proof -
  from assms(2) obtain m where m: "j = 16 * m" by (auto simp: mod_eq_0_iff_dvd)
  have "(16 * m + 15) div 16 = m" by simp
  with assms(1) m show ?thesis by simp
qed

lemma sint_small:
  fixes w :: word_t
  assumes "unat w < 2 ^ 31"
  shows "sint w = int (unat w)"
proof -
  have "sint w = signed_take_bit 31 (uint w)"
    by (simp add: sint_uint)
  also have "\<dots> = uint w"
  proof (rule signed_take_bit_int_eq_self)
    show "- (2 ^ 31) \<le> uint w" by (rule order_trans [OF _ uint_ge_0]) simp
    have "int (unat w) < int (2 ^ 31)" using assms by (simp only: of_nat_less_iff)
    then show "uint w < 2 ^ 31" by simp
  qed
  finally show ?thesis by simp
qed

lemma asize_eq:
  fixes b :: word_t
  assumes a: "a = (unat n + 4 + 15) div 16 * 16" and le: "int a \<le> sint b"
  shows "unat (ucast (blksz n) :: word_t) = a" "sint (ucast (blksz n) :: word_t) = int a"
proof -
  have "sint b < 2 ^ 31" using sint_lt [of b] by simp
  with le have a31: "a < 2 ^ 31" by simp
  with a have "unat n + 19 < 2 ^ 64" by simp
  then have u: "unat (blksz n) = a" using a by (simp add: unat_blksz)
  have "unat (ucast (blksz n) :: word_t) = unat (blksz n) mod 2 ^ 32"
    by (simp add: unsigned_ucast_eq take_bit_eq_mod)
  with u a31 show 1: "unat (ucast (blksz n) :: word_t) = a" by simp
  with a31 show "sint (ucast (blksz n) :: word_t) = int a"
    by (simp add: sint_small)
qed

section \<open>The public operations on small and failing requests\<close>

subsection \<open>A request of zero bytes\<close>

lemma malloc_place_not_null: "malloc_place s a ptr = Inr (p, s') \<Longrightarrow> p \<noteq> 0"
  unfolding malloc_place_def bt_payload_def
  by (auto simp: bnd_eq_Inr bt_size_def bt_get_prevfree_def load_eq_Inr Let_def
           dest: valid_plus4 split: if_splits prod.splits)

lemma mm_malloc_not_null: "mm_malloc s n = Some (Inr (p, s')) \<Longrightarrow> p \<noteq> 0"
  by (auto simp: mm_malloc_def Let_def dest: malloc_place_not_null split: option.splits sum.splits)




subsection \<open>calloc\<close>

text \<open>
  C5, as the claim states it, fails: \<open>calloc\<close> multiplies without an overflow check. The
  product of \<open>2^63 + 4\<close> and \<open>2\<close> overflows \<open>size_t\<close> and wraps to 8; \<open>calloc\<close> calls
  \<open>malloc(8)\<close> and returns the non-null payload address of a 16-byte block.
\<close>

theorem calloc_overflow_counterexample:
  "returned (mm_calloc heap0 9223372036854775812 2) = Some 0x800000020"
  by (simp add: returned_def mm_calloc_def memset_def range_ok_def alloc_defs heap0_def bt_defs
      mem_defs)

text \<open>
  C5, amended: \<open>calloc(nmemb, size)\<close> computes \<open>bytes = nmemb * size\<close> modulo \<open>2^64\<close>
  with no overflow check and calls \<open>malloc(bytes)\<close>; whenever it returns, the pointer is
  the non-null one that \<open>malloc\<close> returned and the \<open>bytes\<close> bytes from it on read as zero.
  (Without overflow \<open>bytes\<close> is the product \<open>nmemb * size\<close>.)
\<close>

theorem calloc_no_overflow_check:
  assumes "mm_calloc s nmemb sz = Some (Inr (p, s'))"
  shows "p \<noteq> 0
    \<and> (\<exists>s1. mm_malloc s (nmemb * sz) = Some (Inr (p, s1)) \<and> memset s1 p 0 (nmemb * sz) = Inr s')
    \<and> (\<forall>i. i < nmemb * sz \<longrightarrow> get_byte (mem s') (p + i) = 0)
    \<and> unat (nmemb * sz) = unat nmemb * unat sz mod 2 ^ 64"
proof -
  from assms obtain q s1 where m0: "mm_malloc s (nmemb * sz) = Some (Inr (q, s1))"
    and r: "(if q \<noteq> 0 then bnd (memset s1 q 0 (nmemb * sz)) (\<lambda>s2. Inr (q, s2))
             else Inr (q, s1)) = Inr (p, s')"
    by (auto simp: mm_calloc_def Let_def split: option.splits sum.splits)
  from m0 have q: "q \<noteq> 0" by (rule mm_malloc_not_null)
  with r have qp: "q = p" and ms: "memset s1 p 0 (nmemb * sz) = Inr s'"
    by (auto simp: bnd_eq_Inr)
  from m0 q qp have m: "mm_malloc s (nmemb * sz) = Some (Inr (p, s1))" and p: "p \<noteq> 0"
    by simp_all
  have "unat (nmemb * sz) = unat nmemb * unat sz mod 2 ^ 64"
    by (simp add: unat_word_ariths)
  with p m ms show ?thesis
    by (auto intro: memset_bytes)
qed

lemma calloc_heap0: "mm_calloc heap0 2 4 = Some (Inr (0x800000020, heap1_zeroed))"
  by (simp add: mm_calloc_def memset_def range_ok_def heap1_zeroed_def alloc_defs heap0_def
      heap1_def bt_defs mem_defs)

theorem calloc_no_overflow_check_witness:
  "mm_calloc heap0 2 4 = Some (Inr (0x800000020, heap1_zeroed))
   \<and> get_byte (mem heap1_zeroed) (0x800000020 + 0) = 0
   \<and> get_byte (mem heap1_zeroed) (0x800000020 + 7) = 0"
proof -
  have a: "i < 2 * 4 \<Longrightarrow> get_byte (mem heap1_zeroed) (0x800000020 + i) = 0" for i
    using calloc_no_overflow_check [OF calloc_heap0] by blast
  from a [of 0] a [of 7] calloc_heap0 show ?thesis by simp
qed

subsection \<open>Out of memory\<close>

text \<open>
  C6: the code at the failing inputs. With a provider that refuses to grow, \<open>malloc(1)\<close>
  and \<open>calloc(1, 1)\<close> on the initial heap, \<open>realloc\<close> of the last block of the heap and
  \<open>realloc\<close> of a block in the middle of the heap (the general case, through \<open>malloc\<close>) do
  not return null: \<open>morecore\<close> writes the epilogue past the break before it looks at the
  provider's answer, and its callers never test its result.
\<close>

theorem out_of_memory_faults:
  "mm_malloc heap0_full 1 = Some (Inl BadAccess)
   \<and> mm_calloc heap0_full 1 1 = Some (Inl BadAccess)
   \<and> mm_realloc heap1_full 0x800000020 100 = Some (Inl BadAccess)
   \<and> mm_realloc heap2_full 0x800000020 100 = Some (Inl BadAccess)"
  by (simp add: mm_calloc_def realloc_defs alloc_defs heap0_full_def heap1_full_def heap2_full_def
      heap0_def heap1_def bt_defs mem_defs)

text \<open>
  C7: whenever \<open>morecore\<close> returns, also when the provider has refused and the result is
  the null pointer, it has moved \<open>heap_end\<close> forward by the requested size, overwritten
  \<open>last\<close> and copied the epilogue word to the new \<open>heap_end\<close>: the failure is not atomic.
\<close>

theorem morecore_not_atomic:
  assumes "morecore s n = Inr (r, s')"
  shows "heap_end s' = heap_end s + n \<and> last_ptr s' = heap_end s
    \<and> mem s' (heap_end s + n) = mem s (heap_end s)
    \<and> (fst (mem_sbrk s n) = - 1 \<longrightarrow> r = 0)"
  using assms
  by (auto simp: morecore_def mem_sbrk_def Let_def bnd_eq_Inr load_eq_Inr store_eq_Inr
      split: if_splits prod.splits)

lemma morecore_heap_gap:
  "morecore heap_gap 16 = Inr (0, heap_gap\<lparr>last_ptr := 0x80000001C, heap_end := 0x80000002C,
      mem := (mem heap_gap)(0x80000002C := 1)\<rparr>)"
  by (simp add: morecore_def mem_sbrk_def heap_gap_def heap0_def mem_defs)

theorem morecore_not_atomic_witness:
  "morecore heap_gap 16 = Inr (0, heap_gap\<lparr>last_ptr := 0x80000001C, heap_end := 0x80000002C,
      mem := (mem heap_gap)(0x80000002C := 1)\<rparr>)
   \<and> fst (mem_sbrk heap_gap 16) = - 1
   \<and> heap_end heap_gap + 16 \<noteq> heap_end heap_gap"
  using morecore_not_atomic [OF morecore_heap_gap]
  by (simp add: morecore_heap_gap) (simp add: heap_gap_def heap0_def mem_sbrk_def)

subsection \<open>realloc to a size that the block already holds\<close>

lemma realloc_keep:
  assumes "old_ptr \<noteq> 0" "n \<noteq> 0" "bt_size s (bt_fromptr old_ptr) = Inr b"
    "ucast (blksz n) \<le>s b" "\<not> 16 \<le>s b - ucast (blksz n)"
  shows "mm_realloc s old_ptr n = Some (Inr (old_ptr, s))"
  using assms by (simp add: mm_realloc_def realloc_inplace_def Let_def)

lemma realloc_keep_aligned:
  assumes "old_ptr \<noteq> 0" and "n \<noteq> 0"
    and b: "bt_size s (bt_fromptr old_ptr) = Inr b"
    and a: "a = (unat n + 4 + 15) div 16 * 16"
    and le: "int a \<le> sint b" and small: "sint b - int a < 16"
  shows "mm_realloc s old_ptr n = Some (Inr (old_ptr, s))"
proof -
  let ?asize = "ucast (blksz n) :: word_t"
  have sa: "sint ?asize = int a" using a le by (rule asize_eq)
  have 1: "?asize \<le>s b" using le sa by (simp add: word_sle_eq)
  have "sint (b - ?asize) = signed_take_bit 31 (sint b - sint ?asize)"
    by (simp add: sint_word_diff)
  also have "\<dots> = sint b - int a"
    using le small sa by (intro signed_take_bit_int_eq_self [THEN trans]) simp_all
  finally have "sint (b - ?asize) < 16" using small by simp
  then have 2: "\<not> 16 \<le>s b - ?asize" by (simp add: word_sle_eq)
  from assms(1,2) b 1 2 show ?thesis by (rule realloc_keep)
qed

text \<open>
  C9: for a non-null payload pointer \<open>p\<close> whose block header holds the size \<open>b\<close> (at
  least 16 and a multiple of 16, invariant I4), \<open>realloc(p, b - 4)\<close> returns \<open>p\<close>; the
  heap is left as it was.
\<close>

theorem realloc_capacity_identity:
  assumes p: "old_ptr \<noteq> 0"
    and b: "bt_size s (bt_fromptr old_ptr) = Inr b"
    and b16: "16 \<le> sint b" and al: "sint b mod 16 = 0"
  shows "mm_realloc s old_ptr (scast b - 4) = Some (Inr (old_ptr, s))"
proof -
  let ?n = "scast b - 4 :: size_t"
  have lt: "sint b < 2 ^ 31" using sint_lt [of b] by simp
  have "(scast b :: size_t) = word_of_int (sint b)" by (simp add: of_int_sint)
  then have "?n = word_of_int (sint b - 4)" by simp
  then have "unat ?n = nat (take_bit 64 (sint b - 4))"
    by (simp only: unat_eq_nat_uint uint_word_of_int_eq) simp
  also have "take_bit 64 (sint b - 4) = sint b - 4"
    using b16 lt by (intro take_bit_int_eq_self) simp_all
  finally have u: "unat ?n = nat (sint b - 4)" .
  with b16 have n0: "?n \<noteq> 0" by (auto simp: unat_eq_0 [symmetric] simp del: unat_eq_0)
  have "nat (sint b mod 16) = nat (sint b) mod nat 16"
    using b16 by (intro nat_mod_distrib) simp_all
  with al have "nat (sint b) mod 16 = 0" by simp
  moreover have "16 \<le> nat (sint b)" "nat (sint b - 4) = nat (sint b) - 4"
    using b16 by (simp_all add: nat_diff_distrib)
  ultimately have "(unat ?n + 4 + 15) div 16 * 16 = nat (sint b)"
    using u align_exact [of "nat (sint b)"] by simp
  then have a: "nat (sint b) = (unat ?n + 4 + 15) div 16 * 16" by simp
  show ?thesis
    using p n0 b a by (rule realloc_keep_aligned) (use b16 in simp_all)
qed

theorem realloc_capacity_identity_witness:
  "(0x800000020 :: addr) \<noteq> 0 \<and> bt_size heap1 (bt_fromptr 0x800000020) = Inr 16 \<and>
   mm_realloc heap1 0x800000020 (scast (16 :: word_t) - 4) = Some (Inr (0x800000020, heap1))"
  using realloc_capacity_identity [of "0x800000020" heap1 16] bt_size_heap1 by simp

text \<open>
  C10: for a non-null payload pointer \<open>p\<close> whose block header holds the size \<open>b\<close> and a
  request \<open>n > 0\<close> whose aligned size \<open>a = align_up(n + 4, 16)\<close> satisfies \<open>a \<le> b\<close> and
  \<open>b - a < 16\<close>, \<open>realloc(p, n)\<close> returns \<open>p\<close> and the whole state (memory, free-list
  ends, \<open>heap_start\<close>, \<open>heap_end\<close>, the provider's break) is the one before the call.
\<close>

theorem realloc_no_split_unchanged:
  assumes "old_ptr \<noteq> 0" and "n \<noteq> 0"
    and "bt_size s (bt_fromptr old_ptr) = Inr b"
    and "a = (unat n + 4 + 15) div 16 * 16"
    and "int a \<le> sint b" and "sint b - int a < 16"
  shows "mm_realloc s old_ptr n = Some (Inr (old_ptr, s))"
  using assms by (rule realloc_keep_aligned)

theorem realloc_no_split_unchanged_witness:
  "(0x800000020 :: addr) \<noteq> 0 \<and> (5 :: size_t) \<noteq> 0
   \<and> bt_size heap1 (bt_fromptr 0x800000020) = Inr 16
   \<and> (16 :: nat) = (unat (5 :: size_t) + 4 + 15) div 16 * 16
   \<and> mm_realloc heap1 0x800000020 5 = Some (Inr (0x800000020, heap1))"
  using realloc_no_split_unchanged [of "0x800000020" 5 heap1 16 16] bt_size_heap1 by simp

section \<open>Boundary tags\<close>

subsection \<open>Bits of headers\<close>

lemma bit_unat_small:
  fixes w :: "'a::len word"
  assumes "unat w < 2 ^ k" "bit w n"
  shows "n < k"
proof (rule ccontr)
  assume "\<not> n < k"
  then have "(2::nat) ^ k \<le> 2 ^ n" by simp
  with assms(1) have "unat w < 2 ^ n" by linarith
  then have "\<not> bit (unat w) n" by (simp add: bit_iff_odd)
  with assms(2) show False by (simp add: bit_unsigned_iff)
qed

lemma bit_unat_aligned:
  fixes w :: "'a::len word"
  assumes "unat w mod 2 ^ k = 0" "bit w n"
  shows "k \<le> n"
proof (rule ccontr)
  assume "\<not> k \<le> n"
  then have nk: "n < k" by simp
  from assms(2) have "bit (unat w) n" by (simp add: bit_unsigned_iff)
  with nk have "bit (take_bit k (unat w)) n" by (simp add: bit_take_bit_iff)
  with assms(1) show False by (simp add: take_bit_eq_mod)
qed

text \<open>A header word built by bt_make from a block size and a set of flags.\<close>

lemma header_parts:
  fixes sz :: size_t and flags :: word_t
  assumes small: "unat sz < 2 ^ 31" and al: "unat sz mod 2 ^ 4 = 0" and fl: "unat flags < 2 ^ 2"
  shows "(ucast (sz OR ucast flags) :: word_t) AND - 4 = ucast sz"
    and "(ucast (sz OR ucast flags) :: word_t) AND 1 = flags AND 1"
    and "(ucast (sz OR ucast flags) :: word_t) AND 2 = flags AND 2"
    and "scast (ucast sz :: word_t) = sz"
    and "unat (ucast sz :: word_t) = unat sz"
proof -
  note s = bit_unat_small [OF small] and a = bit_unat_aligned [OF al] and f = bit_unat_small [OF fl]
  have three: "(3 :: word_t) = mask 2" and one: "(1::word_t) = mask 1" by (simp_all add: mask_eq_exp_minus_1)
  have "(ucast (sz OR ucast flags) :: word_t) AND NOT 3 = ucast sz"
    unfolding three by (rule bit_word_eqI) (auto simp: bit_simps dest: s a f)
  then show "(ucast (sz OR ucast flags) :: word_t) AND - 4 = ucast sz" by simp
  show "(ucast (sz OR ucast flags) :: word_t) AND 1 = flags AND 1"
    unfolding one by (rule bit_word_eqI) (auto simp: bit_simps dest: s a f)
  have two: "(2 :: word_t) = push_bit 1 1" by simp
  show "(ucast (sz OR ucast flags) :: word_t) AND 2 = flags AND 2"
    unfolding two by (rule bit_word_eqI) (auto simp: bit_simps dest: s a f)
  show "scast (ucast sz :: word_t) = sz"
    by (rule bit_word_eqI) (auto simp: bit_simps min_def dest: s a f split: if_splits)
  have "unat (ucast sz :: word_t) = unat sz mod 2 ^ 32"
    by (simp add: unsigned_ucast_eq take_bit_eq_mod)
  with small show "unat (ucast sz :: word_t) = unat sz" by simp
qed


lemma and3_unat: "((a :: addr) AND 3 = 0) = (unat a mod 4 = 0)"
proof -
  have "(3 :: addr) = mask 2" by (simp add: mask_eq_exp_minus_1)
  then have "a AND 3 = take_bit 2 a" by (simp only: take_bit_eq_mask)
  then have "unat (a AND 3) = unat a mod 4"
    by (simp add: unsigned_take_bit_eq take_bit_eq_mod unat_mod)
  then show ?thesis by (simp add: word_unat_eq_iff)
qed

lemma valid_nat:
  "valid s a = (unat a mod 4 = 0 \<and> unat (mem_lo s) \<le> unat a \<and> unat a + 4 \<le> unat (mem_brk s))"
  by (simp add: valid_def and3_unat)

lemma valid_mem_update [simp]: "valid (s\<lparr>mem := m\<rparr>) a = valid s a"
  by (simp add: valid_def)

lemma unat_plus:
  fixes a :: addr
  assumes "unat a + unat b < 2 ^ 64"
  shows "unat (a + b) = unat a + unat b"
  using assms by (simp add: unat_add_lem [THEN iffD1])

lemma bt_make_eq:
  assumes v: "valid s bt"
    and small: "unat sz < 2 ^ 31" and al: "unat sz mod 16 = 0" and big: "16 \<le> unat sz"
    and fl: "unat flags < 4"
    and nxt: "unat bt + unat sz \<le> unat (heap_end s)"
    and he: "unat (heap_end s) + 4 \<le> unat (mem_brk s)"
  shows "bt_make s bt sz flags = Inr (s\<lparr>mem :=
     (if flags AND 1 = 0
      then (mem s)(bt := ucast (sz OR ucast flags),
                   bt + sz - 4 := ucast (sz OR ucast flags),
                   bt + sz := (mem s (bt + sz) AND NOT 2) OR 2)
      else (mem s)(bt := ucast (sz OR ucast flags),
                   bt + sz := mem s (bt + sz) AND NOT 2))\<rparr>)"
proof -
  let ?h = "ucast (sz OR ucast flags) :: word_t"
  have lt: "unat (heap_end s) < 2 ^ 64" using unsigned_less [of "heap_end s"] by simp
  have un: "unat (bt + sz) = unat bt + unat sz"
    using nxt lt by (intro unat_plus) simp
  have uf: "unat (bt + sz - 4) = unat bt + unat sz - 4"
    using un big by (simp add: unat_sub_if')
  have hp: "?h AND - 4 = ucast sz" "?h AND 1 = flags AND 1" "scast (ucast sz :: word_t) = sz"
    using small al fl by (simp_all add: header_parts)
  have vn: "valid s (bt + sz)" using v nxt he al un by (simp add: valid_nat) presburger
  have vf: "valid s (bt + sz - 4)" using v nxt he al uf big by (simp add: valid_nat) presburger
  have le: "bt + sz \<le> heap_end s" using nxt un by (simp add: word_le_nat_alt)
  have ne: "bt + sz \<noteq> bt" "bt + sz - 4 \<noteq> bt" "bt + sz - 4 \<noteq> bt + sz" "bt + sz \<noteq> 0"
    using un uf big by (auto simp: word_unat_eq_iff)
  show ?thesis
    using v vn vf le ne hp
    by (simp add: bt_make_def bt_next_def bt_size_def bt_clr_prevfree_def bt_free_def
        bt_footer_def bt_set_prevfree_def USED_def PREVFREE_def store_def Let_def
        fun_upd_twist)
qed

text \<open>
  C3: for a block at a valid address \<open>bt\<close>, a block size \<open>sz\<close> (at least 16, a multiple
  of 16, below \<open>2^31\<close>: invariant I4) that leaves the next block's header at or below
  \<open>heap_end\<close>, and every set of flags, \<open>bt_make\<close> returns; afterwards the next block is at
  \<open>bt + sz\<close>, its PREVFREE bit is set if the flags mark the block FREE and clear if they
  mark it USED, and for a FREE block the footer word equals the header word.
\<close>

theorem bt_make_prevfree_consistent:
  assumes v: "valid s bt"
    and small: "unat sz < 2 ^ 31" and al: "unat sz mod 16 = 0" and big: "16 \<le> unat sz"
    and fl: "unat flags < 4"
    and nxt: "unat bt + unat sz \<le> unat (heap_end s)"
    and he: "unat (heap_end s) + 4 \<le> unat (mem_brk s)"
  shows "\<exists>s'. bt_make s bt sz flags = Inr s'
    \<and> bt_next s' bt = Inr (bt + sz)
    \<and> bt_free s' bt = Inr (flags AND USED = 0)
    \<and> bt_get_prevfree s' (bt + sz) = Inr (if flags AND USED = 0 then PREVFREE else 0)
    \<and> (flags AND USED = 0 \<longrightarrow>
          bt_footer s' bt = Inr (bt + sz - 4) \<and> load s' (bt + sz - 4) = load s' bt)"
proof -
  let ?h = "ucast (sz OR ucast flags) :: word_t"
  have lt: "unat (heap_end s) < 2 ^ 64" using unsigned_less [of "heap_end s"] by simp
  have un: "unat (bt + sz) = unat bt + unat sz"
    using nxt lt by (intro unat_plus) simp
  have uf: "unat (bt + sz - 4) = unat bt + unat sz - 4"
    using un big by (simp add: unat_sub_if')
  have hp: "?h AND - 4 = ucast sz" "?h AND 1 = flags AND 1" "scast (ucast sz :: word_t) = sz"
    using small al fl by (simp_all add: header_parts)
  have vn: "valid s (bt + sz)" using v nxt he al un by (simp add: valid_nat) presburger
  have vf: "valid s (bt + sz - 4)" using v nxt he al uf big by (simp add: valid_nat) presburger
  have le: "bt + sz \<le> heap_end s" using nxt un by (simp add: word_le_nat_alt)
  have ne: "bt + sz \<noteq> bt" "bt + sz - 4 \<noteq> bt" "bt + sz - 4 \<noteq> bt + sz" "bt + sz \<noteq> 0"
    using un uf big by (auto simp: word_unat_eq_iff)
  have pf: "((w :: word_t) AND - 3 OR 2) AND 2 = 2" "(w AND - 3) AND 2 = 0" for w
    by (rule bit_word_eqI, auto simp: bit_simps)+
  show ?thesis
    unfolding bt_make_eq [OF assms]
    using v vn vf le ne hp
    by (simp add: bt_next_def bt_size_def bt_free_def bt_footer_def bt_get_prevfree_def
        USED_def PREVFREE_def Let_def pf)
qed

theorem bt_make_prevfree_consistent_witness:
  "valid heap1 0x80000001C
   \<and> (\<exists>s'. bt_make heap1 0x80000001C 16 FREE = Inr s'
        \<and> bt_next s' 0x80000001C = Inr 0x80000002C
        \<and> bt_free s' 0x80000001C = Inr True
        \<and> bt_get_prevfree s' 0x80000002C = Inr PREVFREE
        \<and> bt_footer s' 0x80000001C = Inr 0x800000028
        \<and> load s' 0x800000028 = load s' 0x80000001C)"
  using bt_make_prevfree_consistent [of heap1 "0x80000001C" 16 FREE]
  by (simp add: heap1_def valid_def FREE_def USED_def)

section \<open>The fit search\<close>

lemma best_fit_opt_Nil [simp]: "best_fit_opt a [] = None"
  by (simp add: best_fit_opt_def)

lemma best_fit_opt_snoc:
  "best_fit_opt a (pre @ [(b, z)]) =
     (if a \<le> z \<and> (case best_fit_opt a pre of None \<Rightarrow> True | Some (b', z') \<Rightarrow> z < z')
      then Some (b, z) else best_fit_opt a pre)"
proof (cases "a \<le> z")
  case False
  then show ?thesis by (simp add: best_fit_opt_def)
next
  case True
  define fit where "fit = (\<lambda>(b :: addr, y :: nat). a \<le> y)"
  define F where "F = filter fit pre"
  define least where "least = (\<lambda>xs :: (addr \<times> nat) list. Min (set (map snd xs)))"
  define pick where "pick = (\<lambda>N. filter (\<lambda>(b :: addr, y :: nat). y = N))"
  have unfold: "best_fit_opt a xs =
      (if filter fit xs = [] then None else Some (hd (pick (least (filter fit xs)) (filter fit xs))))"
    for xs
    by (simp add: best_fit_opt_def fit_def pick_def least_def Let_def)
  have Fx: "filter fit (pre @ [(b, z)]) = F @ [(b, z)]"
    using True by (simp add: F_def fit_def)
  have pick_app: "pick N (F @ [(b, z)]) = pick N F @ (if z = N then [(b, z)] else [])" for N
    by (simp add: pick_def)
  show ?thesis
  proof (cases "F = []")
    case True
    then have "best_fit_opt a pre = None" by (simp add: unfold F_def)
    moreover have "best_fit_opt a (pre @ [(b, z)]) = Some (b, z)"
      unfolding unfold Fx using True by (simp add: pick_def least_def)
    ultimately show ?thesis using \<open>a \<le> z\<close> by simp
  next
    case False
    have ne: "set (map snd F) \<noteq> {}"
      using False unfolding set_empty map_is_Nil_conv .
    have "least F \<in> set (map snd F)"
      unfolding least_def using finite_set ne by (rule Min_in)
    then obtain x where x: "x \<in> set F" "snd x = least F" by auto
    then have hit: "pick (least F) F \<noteq> []"
      by (auto simp: pick_def filter_empty_conv case_prod_beta)
    have lower: "least F \<le> snd y" if "y \<in> set F" for y
      unfolding least_def using that by (intro Min_le) auto
    have old: "best_fit_opt a pre = Some (hd (pick (least F) F))"
      using False by (simp add: unfold F_def)
    have "hd (pick (least F) F) \<in> set (pick (least F) F)"
      using hit by (rule hd_in_set)
    then have zM: "snd (hd (pick (least F) F)) = least F"
      by (auto simp: pick_def case_prod_beta)
    have M': "least (F @ [(b, z)]) = min z (least F)"
      unfolding least_def using ne by (simp add: Min_insert del: set_map)
    have new: "best_fit_opt a (pre @ [(b, z)]) =
        Some (hd (pick (min z (least F)) (F @ [(b, z)])))"
      unfolding unfold Fx M' by simp
    show ?thesis
    proof (cases "z < least F")
      case True
      have "\<forall>y \<in> set F. snd y \<noteq> z"
      proof
        fix y assume "y \<in> set F"
        from lower [OF this] True show "snd y \<noteq> z" by simp
      qed
      then have "pick z F = []"
        unfolding pick_def filter_empty_conv by (simp add: case_prod_beta)
      with True have "best_fit_opt a (pre @ [(b, z)]) = Some (b, z)"
        unfolding new by (simp add: min_def pick_app)
      moreover have "case best_fit_opt a pre of None \<Rightarrow> True | Some (b', z') \<Rightarrow> z < z'"
        unfolding old using True zM by (simp add: case_prod_beta)
      ultimately show ?thesis using \<open>a \<le> z\<close> by simp
    next
      case False
      then have "min z (least F) = least F" by simp
      then have "best_fit_opt a (pre @ [(b, z)]) = Some (hd (pick (least F) F))"
        unfolding new using hit by (simp add: pick_app)
      moreover have "\<not> (case best_fit_opt a pre of None \<Rightarrow> True | Some (b', z') \<Rightarrow> z < z')"
        unfolding old using False zM by (simp add: case_prod_beta)
      ultimately show ?thesis using old by simp
    qed
  qed
qed


lemma unat_scast_small:
  fixes w :: word_t
  assumes "unat w < 2 ^ 31"
  shows "unat (scast w :: size_t) = unat w"
proof -
  have "(scast w :: size_t) = ucast w"
    by (rule bit_word_eqI) (auto simp: bit_simps min_def dest: bit_unat_small [OF assms] split: if_splits)
  moreover have "unat w < 2 ^ 64" using assms by simp
  ultimately show ?thesis by (simp add: unsigned_ucast_eq take_bit_eq_mod)
qed

lemma scast_le_small:
  fixes w :: word_t
  assumes "unat w < 2 ^ 31"
  shows "(reqsz \<le> (scast w :: size_t)) = (unat reqsz \<le> unat w)"
  by (simp add: word_le_nat_alt unat_scast_small [OF assms])

lemma sless_small:
  fixes v w :: word_t
  assumes "unat v < 2 ^ 31" "unat w < 2 ^ 31"
  shows "(v <s w) = (unat v < unat w)"
  using assms by (simp add: word_sless_alt sint_small del: of_nat_unat)

lemma bt_size_hsize: "valid s b \<Longrightarrow> bt_size s b = Inr (hsize s b)"
  by (simp add: bt_size_def hsize_def)

lemma sized_snoc: "sized s (pre @ [b]) = sized s pre @ [(b, unat (hsize s b))]"
  by (simp add: sized_def)

lemma find_fit_step_tracks:
  assumes v: "valid s b" "valid s (b + 4)" "b \<noteq> 0" and sm: "unat (hsize s b) < 2 ^ 31"
    and tr: "tracks s best (best_fit_opt (unat reqsz) (sized s pre))"
  shows "\<exists>best'. find_fit_step s reqsz best b = Inr (best', ptr_address (mem s (b + 4)))
     \<and> tracks s best' (best_fit_opt (unat reqsz) (sized s (pre @ [b])))"
proof (cases "best_fit_opt (unat reqsz) (sized s pre)")
  case None
  with tr have "best = 0" by (simp add: tracks_def)
  with None v sm show ?thesis
    by (simp add: find_fit_step_def bt_size_hsize ptr_next_def scast_le_small sized_snoc
        best_fit_opt_snoc tracks_def)
next
  case (Some r)
  obtain b' z' where r: "r = (b', z')" by (cases r)
  with Some tr have t: "best = b'" "b' \<noteq> 0" "valid s b'" "z' = unat (hsize s b')" "z' < 2 ^ 31"
    by (simp_all add: tracks_def)
  with Some r v sm show ?thesis
    by (simp add: find_fit_step_def bt_size_hsize ptr_next_def scast_le_small sless_small
        sized_snoc best_fit_opt_snoc tracks_def)
qed

lemma find_fit_loop_refines:
  assumes "fl_path s p bs" and "\<forall>b \<in> set bs. unat (hsize s b) < 2 ^ 31"
    and "tracks s best (best_fit_opt (unat reqsz) (sized s pre))"
  shows "find_fit_loop s reqsz best p =
           Some (Inr (best_fit_spec (unat reqsz) (sized s (pre @ bs))))"
  using assms
proof (induction bs arbitrary: p best pre)
  case Nil
  then show ?case
    by (subst find_fit_loop.simps)
       (auto simp: best_fit_spec_def tracks_def split: option.splits)
next
  case (Cons b bs)
  from Cons.prems(1) have b: "p = b" "b \<noteq> 0x800000000" "b \<noteq> 0" "valid s b" "valid s (b + 4)"
    and rest: "fl_path s (ptr_address (mem s (b + 4))) bs"
    by simp_all
  from Cons.prems(2) have sm: "unat (hsize s b) < 2 ^ 31"
    and sms: "\<forall>b \<in> set bs. unat (hsize s b) < 2 ^ 31" by simp_all
  from find_fit_step_tracks [OF b(4,5,3) sm Cons.prems(3)]
  obtain best' where st: "find_fit_step s reqsz best b = Inr (best', ptr_address (mem s (b + 4)))"
    and tr: "tracks s best' (best_fit_opt (unat reqsz) (sized s (pre @ [b])))"
    by blast
  have "find_fit_loop s reqsz best p =
          find_fit_loop s reqsz best' (ptr_address (mem s (b + 4)))"
    using b st by (subst find_fit_loop.simps) simp
  also have "\<dots> = Some (Inr (best_fit_spec (unat reqsz) (sized s ((pre @ [b]) @ bs))))"
    using rest sms tr by (rule Cons.IH)
  finally show ?case by simp
qed

text \<open>
  C2: on every free list (the blocks \<open>bs\<close> that the next links visit from \<open>list_start\<close>
  to the sentinel, with sizes that are non-negative as \<open>word_t\<close>), \<open>find_fit\<close> returns, and
  its result is the specification's best fit over the whole list: the first block in list
  order among the blocks of the smallest size that is at least the requested size, null if
  no block is large enough or the list is empty.
\<close>

theorem find_fit_best_fit:
  assumes "free_list s bs" and "\<forall>b \<in> set bs. unat (hsize s b) < 2 ^ 31"
  shows "find_fit s reqsz = Some (Inr (best_fit_spec (unat reqsz) (sized s bs)))"
proof (cases bs)
  case Nil
  with assms(1) show ?thesis
    by (simp add: free_list_def find_fit_def best_fit_spec_def sized_def)
next
  case (Cons b bs')
  with assms(1) have p: "fl_path s (list_start s) bs" and "list_start s \<noteq> 0"
    by (simp_all add: free_list_def)
  moreover have "tracks s 0 (best_fit_opt (unat reqsz) (sized s []))"
    by (simp add: tracks_def sized_def)
  ultimately show ?thesis
    using find_fit_loop_refines [OF p assms(2), of 0 reqsz "[]"]
    by (simp add: find_fit_def)
qed

lemma free_list_three_free:
  "free_list heap_three_free [0x80000001C, 0x80000005C, 0x80000008C]"
  by (simp add: free_list_def heap_three_free_def valid_def ptr_address_def)

theorem find_fit_best_fit_witness:
  "free_list heap_three_free [0x80000001C, 0x80000005C, 0x80000008C]
   \<and> sized heap_three_free [0x80000001C, 0x80000005C, 0x80000008C]
       = [(0x80000001C, 48), (0x80000005C, 32), (0x80000008C, 32)]
   \<and> find_fit heap_three_free 32 = Some (Inr 0x80000005C)"
proof -
  have z: "sized heap_three_free [0x80000001C, 0x80000005C, 0x80000008C]
       = [(0x80000001C, 48), (0x80000005C, 32), (0x80000008C, 32)]"
    by (simp add: sized_def hsize_def heap_three_free_def USED_def PREVFREE_def)
  have "\<forall>b \<in> set [0x80000001C, 0x80000005C, 0x80000008C]. unat (hsize heap_three_free b) < 2 ^ 31"
    by (simp add: hsize_def heap_three_free_def USED_def PREVFREE_def)
  from find_fit_best_fit [OF free_list_three_free this, of 32]
  have "find_fit heap_three_free 32 = Some (Inr 0x80000005C)"
    unfolding z by (simp add: best_fit_spec_def best_fit_opt_def)
  with free_list_three_free z show ?thesis by simp
qed

section \<open>The payload copy of realloc\<close>




lemmas copy_defs = memcpy_def range_ok_def overlap_def coalesce_def put_bytes_def new_byte_def
  get_byte_def cat4_def





section \<open>Coalescing keeps the invariants\<close>

subsection \<open>Address arithmetic\<close>

lemma unat_add_nat:
  fixes b :: addr
  assumes "unat b + k < 2 ^ 64"
  shows "unat (b + of_nat k) = unat b + k"
proof -
  have "k < 2 ^ 64" using assms by simp
  then have "unat (of_nat k :: addr) = k" by (simp add: unat_of_nat)
  with assms show ?thesis by (simp add: unat_plus)
qed

lemma unat_add_num:
  fixes b :: addr
  shows "unat b + 4 < 2 ^ 64 \<Longrightarrow> unat (b + 4) = unat b + 4"
    and "unat b + 8 < 2 ^ 64 \<Longrightarrow> unat (b + 8) = unat b + 8"
  using unat_add_nat [of b 4] unat_add_nat [of b 8] by simp_all

lemma unat_sub4:
  fixes b :: addr
  shows "4 \<le> unat b \<Longrightarrow> unat (b - 4) = unat b - 4"
  by (simp add: unat_sub_if')

lemma chain_le: "chain m a bs e \<Longrightarrow> unat a \<le> unat e"
proof (induction bs arbitrary: a)
  case Nil
  then show ?case by simp
next
  case (Cons b bs)
  then have "unat (b + of_nat (bsize m b)) \<le> unat e" and "unat b + bsize m b \<le> unat e" "a = b"
    by simp_all
  then show ?case by simp
qed

lemma unat_step:
  fixes b e :: addr
  assumes "unat b + k \<le> unat e"
  shows "unat (b + of_nat k) = unat b + k"
proof -
  have "unat e < 2 ^ 64" using unsigned_less [of e] by simp
  with assms show ?thesis by (intro unat_add_nat) simp
qed

lemma chain_append:
  "chain m a (xs @ ys) e = (\<exists>c. chain m a xs c \<and> chain m c ys e)"
proof (induction xs arbitrary: a)
  case Nil
  then show ?case by simp
next
  case (Cons b xs)
  show ?case
  proof
    assume l: "chain m a ((b # xs) @ ys) e"
    then have "chain m (b + of_nat (bsize m b)) (xs @ ys) e" by simp
    with Cons.IH obtain c where c: "chain m (b + of_nat (bsize m b)) xs c" "chain m c ys e"
      by blast
    from l have "unat b + bsize m b \<le> unat e" by simp
    then have "unat (b + of_nat (bsize m b)) = unat b + bsize m b" by (rule unat_step)
    with chain_le [OF c(1)] have "unat b + bsize m b \<le> unat c" by simp
    with l c show "\<exists>c. chain m a (b # xs) c \<and> chain m c ys e" by auto
  next
    assume "\<exists>c. chain m a (b # xs) c \<and> chain m c ys e"
    then obtain c where c: "chain m a (b # xs) c" "chain m c ys e" by blast
    from chain_le [OF c(2)] c(1) have "unat b + bsize m b \<le> unat e" by simp
    moreover from c have "chain m (b + of_nat (bsize m b)) (xs @ ys) e"
      using Cons.IH by auto
    ultimately show "chain m a ((b # xs) @ ys) e" using c(1) by simp
  qed
qed

lemma chain_mem:
  assumes "chain m a bs e" "b \<in> set bs"
  shows "unat a \<le> unat b \<and> unat b + bsize m b \<le> unat e \<and> unat b mod 16 = 12
     \<and> 16 \<le> bsize m b \<and> bsize m b mod 16 = 0 \<and> bsize m b < 2 ^ 31"
  using assms
proof (induction bs arbitrary: a)
  case Nil
  then show ?case by simp
next
  case (Cons c bs)
  show ?case
  proof (cases "b = c")
    case True
    with Cons.prems show ?thesis by simp
  next
    case False
    with Cons.prems have "b \<in> set bs" and ch: "chain m (c + of_nat (bsize m c)) bs e"
      and st: "unat c + bsize m c \<le> unat e" "a = c"
      by simp_all
    from Cons.IH [OF ch \<open>b \<in> set bs\<close>] unat_step [OF st(1)] st(2) show ?thesis by simp
  qed
qed

lemma chain_frame:
  assumes "chain m a bs e" "\<forall>b \<in> set bs. m' b = m b"
  shows "chain m' a bs e"
  using assms by (induction bs arbitrary: a) (simp_all add: bsize_def)

lemma tags_append:
  "tags m pf (xs @ ys) = (tags m pf xs \<and> tags m (lastfree m pf xs) ys)"
  by (induction xs arbitrary: pf) (auto simp: lastfree_def)

lemma tags_frame:
  assumes "tags m pf bs" "\<forall>b \<in> set bs. m' b = m b \<and> m' (footer m b) = m (footer m b)"
  shows "tags m' pf bs"
  using assms
  by (induction bs arbitrary: pf) (simp_all add: pfree_def is_free_def footer_def bsize_def)

lemma lastfree_frame:
  assumes "\<forall>b \<in> set bs. m' b = m b"
  shows "lastfree m' pf bs = lastfree m pf bs"
  using assms by (simp add: lastfree_def is_free_def)

subsection \<open>Free-list nodes and their link words\<close>

lemma scast_ucast_small:
  fixes d :: size_t
  assumes "unat d < 2 ^ 31"
  shows "scast (ucast d :: word_t) = d"
  by (rule bit_word_eqI)
     (auto simp: bit_simps min_def dest: bit_unat_small [OF assms] split: if_splits)

lemma pow_or:
  fixes d :: size_t
  assumes "unat d < 2 ^ k" "k \<le> j"
  shows "2 ^ j OR d = 2 ^ j + d"
proof -
  have "(2 ^ j :: size_t) + d = 2 ^ j OR d"
  proof (rule disjunctive_add_eq_or, rule bit_word_eqI)
    fix n assume "n < LENGTH(64)"
    show "bit ((2 ^ j :: size_t) AND d) n = bit (0 :: size_t) n"
      using bit_unat_small [OF assms(1), of n] assms(2)
      by (auto simp: bit_simps bit_exp_iff)
  qed
  then show ?thesis by simp
qed

lemma base_or:
  fixes d :: size_t
  assumes "unat d < 2 ^ 31"
  shows "0x800000000 OR d = 0x800000000 + d"
  using pow_or [OF assms, of 35] by simp

lemma node_offset:
  assumes "node s b"
  shows "unat (b - 0x800000000) = unat b - 34359738368" "unat (b - 0x800000000) < 2 ^ 31"
    "12 \<le> unat (b - 0x800000000)"
proof -
  from assms have r: "unat b mod 16 = 12" "34359738368 \<le> unat b" "unat b < 34359738368 + 2 ^ 31"
    by (simp_all add: node_def)
  then show 1: "unat (b - 0x800000000) = unat b - 34359738368"
    by (simp add: unat_sub_if')
  with r show "unat (b - 0x800000000) < 2 ^ 31" by simp
  from r 1 show "12 \<le> unat (b - 0x800000000)" by presburger
qed

lemma ptr_roundtrip:
  assumes "node s b"
  shows "ptr_address (ptr_size b) = b"
proof -
  let ?d = "b - 0x800000000"
  have d: "unat ?d < 2 ^ 31" using assms by (rule node_offset)
  have "ptr_address (ptr_size b) = 0x800000000 OR scast (ucast ?d :: word_t)"
    by (simp add: ptr_address_def ptr_size_def)
  also have "\<dots> = 0x800000000 OR ?d" by (simp only: scast_ucast_small [OF d])
  also have "\<dots> = 0x800000000 + ?d" using d by (rule base_or)
  finally show ?thesis by simp
qed

lemma ptr_size_nonzero: "node s b \<Longrightarrow> ptr_size b \<noteq> 0"
proof
  assume n: "node s b" and z: "ptr_size b = 0"
  from ptr_roundtrip [OF n] z have "b = 0x800000000" by (simp add: ptr_address_def)
  with n show False by (simp add: node_def)
qed

lemma node_kinds:
  assumes "node s b"
  shows "unat (b + 4) = unat b + 4" "unat (b + 8) = unat b + 8"
    "unat (b + 4) mod 16 = 0" "unat (b + 8) mod 16 = 4"
proof -
  from assms have r: "unat b mod 16 = 12" "unat b < 34359738368 + 2 ^ 31"
    by (simp_all add: node_def)
  then show 1: "unat (b + 4) = unat b + 4" and 2: "unat (b + 8) = unat b + 8"
    by (simp_all add: unat_add_num)
  from r 1 show "unat (b + 4) mod 16 = 0" by presburger
  from r 2 show "unat (b + 8) mod 16 = 4" by presburger
qed

lemma node_cross:
  assumes "node s b" "node s c"
  shows "b + 4 \<noteq> c + 8" "b + 8 \<noteq> c + 4"
proof -
  from node_kinds(3) [OF assms(1)] node_kinds(4) [OF assms(2)]
  have "unat (b + 4) mod 16 \<noteq> unat (c + 8) mod 16" by simp
  then show "b + 4 \<noteq> c + 8" by (rule contrapos_nn) (simp only:)
  from node_kinds(4) [OF assms(1)] node_kinds(3) [OF assms(2)]
  have "unat (b + 8) mod 16 \<noteq> unat (c + 4) mod 16" by simp
  then show "b + 8 \<noteq> c + 4" by (rule contrapos_nn) (simp only:)
qed

lemma node_mem_update [simp]: "node (s\<lparr>mem := m\<rparr>) b = node s b"
  by (simp add: node_def)

lemma links_append:
  "xs \<noteq> [] \<Longrightarrow> ys \<noteq> [] \<Longrightarrow>
   links m p (xs @ ys) q = (links m p xs (ptr_size (hd ys)) \<and> links m (ptr_size (last xs)) ys q)"
proof (induction m p xs q rule: links.induct)
  case (1 m p q)
  then show ?case by simp
next
  case (2 m p b q)
  then show ?case by (cases ys) auto
next
  case (3 m p b c r q)
  then show ?case by auto
qed

lemma links_outside:
  assumes "\<forall>b \<in> set fl. a \<noteq> b + 4 \<and> a \<noteq> b + 8"
  shows "links (m(a := v)) p fl q = links m p fl q"
  using assms by (induction m p fl q rule: links.induct) auto

lemma links_set_next_last:
  assumes "links m p xs q" "xs \<noteq> []" "distinct xs" "list_all (node s) xs"
  shows "links (m(last xs + 4 := q')) p xs q'"
  using assms
proof (induction m p xs q rule: links.induct)
  case (1 m p q)
  then show ?case by simp
next
  case (2 m p b q)
  then show ?case by simp
next
  case (3 m p b c r q)
  let ?l = "last (c # r)"
  have l: "?l \<in> set (c # r)" by (rule last_in_set) simp
  with 3 have nl: "node s ?l" "node s b" "b \<noteq> ?l"
    by (auto simp: list_all_iff)
  then have "b + 8 \<noteq> ?l + 4" "b + 4 \<noteq> ?l + 4"
    using node_cross [of s b ?l] by auto
  with 3 show ?case by auto
qed

lemma links_set_prev_hd:
  assumes "links m p ys q" "ys \<noteq> []" "distinct ys" "list_all (node s) ys"
  shows "links (m(hd ys + 8 := p')) p' ys q"
proof (cases ys)
  case Nil
  with assms show ?thesis by simp
next
  case (Cons b r)
  show ?thesis
  proof (cases r)
    case Nil
    with Cons assms show ?thesis by simp
  next
    case (Cons c r')
    with \<open>ys = b # r\<close> assms have nb: "node s b" and
      out: "\<forall>x \<in> set (c # r'). b + 8 \<noteq> x + 4 \<and> b + 8 \<noteq> x + 8"
      by (auto simp: list_all_iff dest: node_cross)
    from Cons \<open>ys = b # r\<close> assms show ?thesis
      using links_outside [OF out] by auto
  qed
qed

subsection \<open>The list operations on a well-formed free list\<close>

lemma node_cong: "mem_lo s' = mem_lo s \<Longrightarrow> mem_brk s' = mem_brk s \<Longrightarrow> node s' b = node s b"
  by (simp add: node_def valid_def)

lemma node_updates [simp]:
  "node (mem_update f s) = node s"
  "node (list_start_update g s) = node s"
  "node (list_end_update g s) = node s"
  by (rule ext, simp add: node_def valid_def)+

lemma node_not_null: "node s b \<Longrightarrow> b \<noteq> 0"
  by (auto simp: node_def)

lemma node_tagword:
  assumes "node s b" "unat x mod 16 = 8 \<or> unat x mod 16 = 12"
  shows "x \<noteq> b + 4" "x \<noteq> b + 8"
  using node_kinds(3,4) [OF assms(1)] assms(2) by auto

lemma list_add_dll:
  assumes d: "dll s fl" and nb: "node s b" and new: "b \<notin> set fl"
  shows "\<exists>s'. list_add s b = Inr s' \<and> dll s' (b # fl) \<and> list_step s s'"
proof (cases fl)
  case Nil
  with d have e: "list_start s = 0" by (simp add: dll_def)
  from nb have v: "valid s (b + 4)" "valid s (b + 8)" by (simp_all add: node_def)
  let ?s' = "s\<lparr>list_start := b, list_end := b, mem := (mem s)(b + 4 := 0, b + 8 := 0)\<rparr>"
  have "list_add s b = Inr ?s'"
    using e v by (simp add: list_add_def list_clr_next_def list_clr_prev_def store_def valid_def)
  moreover have "dll ?s' (b # fl)"
    using Nil nb by (simp add: dll_def)
  moreover have "list_step s ?s'"
    using node_tagword [OF nb] by (auto simp: list_step_def)
  ultimately show ?thesis by blast
next
  case (Cons c r)
  with d have e: "list_start s = c" and lk: "links (mem s) 0 (c # r) 0"
    and dis: "distinct (c # r)" and nodes: "list_all (node s) (c # r)"
    by (simp_all add: dll_def)
  from nodes have nc: "node s c" by simp
  from nc have c0: "c \<noteq> 0" by (rule node_not_null)
  from nb nc have v: "valid s (b + 4)" "valid s (b + 8)" "valid s (c + 8)"
    by (simp_all add: node_def)
  let ?m = "(mem s)(b + 4 := ptr_size c, c + 8 := ptr_size b, b + 8 := 0)"
  let ?s' = "s\<lparr>mem := ?m, list_start := b\<rparr>"
  have run: "list_add s b = Inr ?s'"
    using e c0 v
    by (simp add: list_add_def list_set_next_def list_set_prev_def list_clr_prev_def store_def
        valid_def)
  have out: "\<forall>x \<in> set (c # r). b + 4 \<noteq> x + 4 \<and> b + 4 \<noteq> x + 8"
    "\<forall>x \<in> set (c # r). b + 8 \<noteq> x + 4 \<and> b + 8 \<noteq> x + 8"
    using new Cons nodes nb by (auto simp: list_all_iff dest: node_cross)
  have "links ((mem s)(b + 4 := ptr_size c)) 0 (c # r) 0"
    using lk by (simp only: links_outside [OF out(1)])
  then have "links ((mem s)(b + 4 := ptr_size c, hd (c # r) + 8 := ptr_size b)) (ptr_size b) (c # r) 0"
    using dis nodes by (intro links_set_prev_hd) simp_all
  then have l2: "links ?m (ptr_size b) (c # r) 0"
    by (simp only: links_outside [OF out(2)] list.sel)
  have bc: "b + 4 \<noteq> c + 8" using nb nc by (rule node_cross)
  have "links ?m 0 (b # c # r) 0"
    using l2 bc by simp
  then have "dll ?s' (b # fl)"
    using Cons d new nb nodes by (simp add: dll_def)
  moreover have "list_step s ?s'"
    using node_tagword [OF nb] node_tagword [OF nc] by (auto simp: list_step_def)
  ultimately show ?thesis using run by blast
qed


lemma list_remove_dll:
  assumes d: "dll s fl" and el: "b \<in> set fl"
  shows "\<exists>s'. list_remove s b = Inr s' \<and> dll s' (remove1 b fl) \<and> list_step s s'"
proof -
  from el have "fl \<noteq> []" by auto
  with d have dis: "distinct fl" and nodes: "list_all (node s) fl"
    and st: "list_start s = hd fl" and en: "list_end s = last fl"
    and lk: "links (mem s) 0 fl 0"
    by (simp_all add: dll_def)
  from el obtain xs ys where fl: "fl = xs @ b # ys" and bx: "b \<notin> set xs"
    by (auto dest: split_list_first)
  from dis fl have bys: "b \<notin> set ys" and dxy: "distinct (xs @ ys)" by auto
  have rm: "remove1 b fl = xs @ ys" using fl bx by (simp add: remove1_append)
  from nodes fl have nb: "node s b" and nxs: "list_all (node s) xs" and nys: "list_all (node s) ys"
    by simp_all
  show ?thesis
  proof (cases xs)
    case Nil
    note xs = Nil
    show ?thesis
    proof (cases ys)
      case Nil
      let ?s' = "s\<lparr>list_start := 0, list_end := 0\<rparr>"
      have "list_remove s b = Inr ?s'"
        using st en fl xs Nil by (simp add: list_remove_def)
      moreover have "dll ?s' (remove1 b fl)"
        using rm xs Nil by (simp add: dll_def)
      moreover have "list_step s ?s'" by (simp add: list_step_def)
      ultimately show ?thesis by blast
    next
      case (Cons c r)
      from nys Cons have nc: "node s c" by simp
      from fl xs Cons have start: "list_start s = b" and "list_end s = last (c # r)"
        using st en by simp_all
      moreover have "last (c # r) \<noteq> b"
        using bys Cons last_in_set [of "c # r"] by auto
      ultimately have ne: "list_end s \<noteq> b" by simp
      from lk fl xs Cons have nx: "mem s (b + 4) = ptr_size c"
        and l1: "links (mem s) (ptr_size b) (c # r) 0"
        by simp_all
      from nb nc have v: "valid s (b + 4)" "valid s (c + 8)" by (simp_all add: node_def)
      let ?s' = "s\<lparr>list_start := c, mem := (mem s)(c + 8 := 0)\<rparr>"
      have "list_remove s b = Inr ?s'"
        using start ne v nx ptr_roundtrip [OF nc]
        by (simp add: list_remove_def ptr_next_def list_clr_prev_def store_def valid_def Let_def)
      moreover have "links ((mem s)(hd (c # r) + 8 := 0)) 0 (c # r) 0"
        using l1 dxy nys xs Cons by (intro links_set_prev_hd) simp_all
      then have "dll ?s' (remove1 b fl)"
        using rm xs Cons dxy nys en fl by (simp add: dll_def)
      moreover have "list_step s ?s'"
        using node_tagword [OF nc] by (auto simp: list_step_def)
      ultimately show ?thesis by blast
    qed
  next
    case (Cons x xs')
    then have xne: "xs \<noteq> []" by simp
    let ?p = "last xs"
    have pin: "?p \<in> set xs" using xne by (rule last_in_set)
    with nxs have np: "node s ?p" by (simp add: list_all_iff)
    from pin bx have pb: "?p \<noteq> b" by auto
    have "hd fl = hd xs" using fl xne by simp
    moreover have "hd xs \<in> set xs" using xne by (rule hd_in_set)
    ultimately have start: "list_start s \<noteq> b" using st bx by auto
    from lk fl xne have l0: "links (mem s) 0 xs (ptr_size b)"
      and l1: "links (mem s) (ptr_size ?p) (b # ys) 0"
      by (simp_all add: links_append)
    from dxy have dx: "distinct xs" and dy: "distinct ys" by simp_all
    show ?thesis
    proof (cases ys)
      case Nil
      from fl Nil en have e: "list_end s = b" by simp
      from l1 Nil have pv: "mem s (b + 8) = ptr_size ?p" by simp
      from nb np have v: "valid s (b + 8)" "valid s (?p + 4)" by (simp_all add: node_def)
      let ?s' = "s\<lparr>list_end := ?p, mem := (mem s)(?p + 4 := 0)\<rparr>"
      have "list_remove s b = Inr ?s'"
        using start e v pv ptr_roundtrip [OF np]
        by (simp add: list_remove_def ptr_prev_def list_clr_next_def store_def valid_def Let_def)
      moreover have "links ((mem s)(?p + 4 := 0)) 0 xs 0"
        using l0 xne dx nxs by (rule links_set_next_last)
      then have "dll ?s' (remove1 b fl)"
        using rm Nil xne dx nxs st fl by (simp add: dll_def)
      moreover have "list_step s ?s'"
        using node_tagword [OF np] by (auto simp: list_step_def)
      ultimately show ?thesis by blast
    next
      case (Cons c r)
      then have yne: "ys \<noteq> []" by simp
      from nys Cons have nc: "node s c" by simp
      have "last fl = last ys" using fl yne by simp
      moreover have "last ys \<in> set ys" using yne by (rule last_in_set)
      ultimately have e: "list_end s \<noteq> b" using en bys by auto
      from l1 Cons have pv: "mem s (b + 8) = ptr_size ?p" and nx: "mem s (b + 4) = ptr_size c"
        and l2: "links (mem s) (ptr_size b) ys 0"
        by simp_all
      from nb np nc have v: "valid s (b + 8)" "valid s (b + 4)" "valid s (?p + 4)" "valid s (c + 8)"
        by (simp_all add: node_def)
      let ?m = "(mem s)(?p + 4 := ptr_size c, c + 8 := ptr_size ?p)"
      let ?s' = "s\<lparr>mem := ?m\<rparr>"
      have run: "list_remove s b = Inr ?s'"
        using start e v pv nx ptr_roundtrip [OF np] ptr_roundtrip [OF nc]
        by (simp add: list_remove_def ptr_prev_def ptr_next_def list_set_next_def
            list_set_prev_def store_def valid_def)
      have cx: "c \<notin> set xs" using dxy Cons by auto
      have py: "?p \<notin> set ys" using dxy pin by auto
      have out1: "\<forall>z \<in> set xs. c + 8 \<noteq> z + 4 \<and> c + 8 \<noteq> z + 8"
        using cx nxs nc by (auto simp: list_all_iff dest: node_cross)
      have out2: "\<forall>z \<in> set ys. ?p + 4 \<noteq> z + 4 \<and> ?p + 4 \<noteq> z + 8"
        using py nys np by (auto simp: list_all_iff dest: node_cross)
      have "links ((mem s)(?p + 4 := ptr_size c)) 0 xs (ptr_size c)"
        using l0 xne dx nxs by (rule links_set_next_last)
      then have a: "links ?m 0 xs (ptr_size c)"
        by (simp only: links_outside [OF out1])
      have "links ((mem s)(?p + 4 := ptr_size c)) (ptr_size b) ys 0"
        using l2 by (simp only: links_outside [OF out2])
      then have "links ((mem s)(?p + 4 := ptr_size c, hd ys + 8 := ptr_size ?p)) (ptr_size ?p) ys 0"
        using yne dy nys by (rule links_set_prev_hd)
      then have b: "links ?m (ptr_size ?p) ys 0" using Cons by simp
      have "links ?m 0 (xs @ ys) 0"
        using a b xne yne Cons by (simp add: links_append)
      then have "dll ?s' (remove1 b fl)"
        using rm xne yne dxy nxs nys st en fl
        by (simp add: dll_def)
      moreover have "list_step s ?s'"
        using node_tagword [OF np] node_tagword [OF nc] by (auto simp: list_step_def)
      ultimately show ?thesis using run by blast
    qed
  qed
qed

subsection \<open>Blocks of a chain\<close>

lemma mod16_12:
  fixes n :: nat
  assumes "n mod 16 = 12"
  shows "n mod 4 = 0" "(n + 4) mod 4 = 0" "(n + 8) mod 4 = 0" "(n - 4) mod 4 = 0" "4 \<le> n"
proof -
  from assms have "n = 16 * (n div 16) + 12" by (metis mult_div_mod_eq)
  then obtain k where k: "n = 16 * k + 12" ..
  then show "n mod 4 = 0" "(n + 4) mod 4 = 0" "(n + 8) mod 4 = 0" "4 \<le> n" by simp_all
  from k have "n - 4 = 4 * (4 * k + 2)" by simp
  then show "(n - 4) mod 4 = 0" by simp
qed

lemma chain_distinct: "chain m a bs e \<Longrightarrow> distinct bs"
proof (induction bs arbitrary: a)
  case Nil
  then show ?case by simp
next
  case (Cons b bs)
  then have ch: "chain m (b + of_nat (bsize m b)) bs e" and st: "unat b + bsize m b \<le> unat e"
    and big: "16 \<le> bsize m b"
    by simp_all
  have "b \<notin> set bs"
  proof
    assume "b \<in> set bs"
    from chain_mem [OF ch this] unat_step [OF st] big show False by simp
  qed
  with Cons.IH [OF ch] show ?case by simp
qed

lemma chain_before:
  assumes "chain m a xs c" "b \<in> set xs"
  shows "unat b + bsize m b \<le> unat c" "unat b < unat c" "b \<noteq> c"
proof -
  from chain_mem [OF assms] show 1: "unat b + bsize m b \<le> unat c" and "unat b < unat c"
    by simp_all
  then show "b \<noteq> c" by auto
qed

lemma block_valid:
  assumes r: "region s" and ch: "chain (mem s) (heap_start s) bs (heap_end s)" and b: "b \<in> set bs"
  shows "node s b" "valid s b" "valid s (b - 4)"
proof -
  from chain_mem [OF ch b] have c: "unat (heap_start s) \<le> unat b"
    "unat b + bsize (mem s) b \<le> unat (heap_end s)" "unat b mod 16 = 12" "16 \<le> bsize (mem s) b"
    by simp_all
  from r have g: "34359738368 \<le> unat (mem_lo s)" "unat (mem_lo s) mod 4 = 0"
    "unat (mem_lo s) + 4 \<le> unat (heap_start s)" "unat (heap_end s) + 4 \<le> unat (mem_brk s)"
    "unat (mem_brk s) \<le> 34359738368 + 2 ^ 31"
    by (simp_all add: region_def)
  have u: "unat (b + 4) = unat b + 4" "unat (b + 8) = unat b + 8" "unat (b - 4) = unat b - 4"
    using c g by (simp_all add: unat_add_num unat_sub4)
  note al = mod16_12 [OF c(3)]
  show "node s b"
    using c g u al by (simp add: node_def valid_nat)
  show "valid s b"
    using c g al by (simp add: valid_nat)
  show "valid s (b - 4)"
    using c g u al by (simp add: valid_nat)
qed

lemma mod16_footer:
  fixes n z :: nat
  assumes "n mod 16 = 12" "z mod 16 = 0" "16 \<le> z"
  shows "(n + z - 4) mod 16 = 8" "(n + z) mod 16 = 12"
proof -
  from assms(1) have "n = 16 * (n div 16) + 12" by (metis mult_div_mod_eq)
  then obtain k where k: "n = 16 * k + 12" ..
  from assms(2) obtain j where j: "z = 16 * j" by (auto simp: mod_eq_0_iff_dvd)
  from k j have "n + z - 4 = 8 + (k + j) * 16" by simp
  then show "(n + z - 4) mod 16 = 8" by (simp only: mod_mult_self1) simp
  from k j have "n + z = 12 + (k + j) * 16" by simp
  then show "(n + z) mod 16 = 12" by (simp only: mod_mult_self1) simp
qed

lemma footer_kind:
  fixes b e :: addr
  assumes "unat b mod 16 = 12" "16 \<le> bsize m b" "bsize m b mod 16 = 0" "unat b + bsize m b \<le> unat e"
  shows "unat (footer m b) = unat b + bsize m b - 4" "unat (footer m b) mod 16 = 8"
proof -
  have "unat (b + of_nat (bsize m b)) = unat b + bsize m b"
    using assms(4) by (rule unat_step)
  then show 1: "unat (footer m b) = unat b + bsize m b - 4"
    using assms(2) by (simp add: footer_def unat_sub4)
  with mod16_footer(1) [OF assms(1,3,2)] show "unat (footer m b) mod 16 = 8" by simp
qed

lemma tags_frame_eq:
  assumes "\<forall>b \<in> set bs. m' b = m b \<and> m' (footer m b) = m (footer m b)"
  shows "tags m' pf bs = tags m pf bs"
  using assms
proof (induction bs arbitrary: pf)
  case Nil
  show ?case by simp
next
  case (Cons b bs)
  then have h: "m' b = m b" and f: "m' (footer m b) = m (footer m b)"
    and r: "\<forall>b \<in> set bs. m' b = m b \<and> m' (footer m b) = m (footer m b)"
    by simp_all
  from h have e: "pfree m' b = pfree m b" "is_free m' b = is_free m b" "footer m' b = footer m b"
    by (simp_all add: pfree_def is_free_def footer_def bsize_def)
  from Cons.IH [OF r] have "tags m' (is_free m b) bs = tags m (is_free m b) bs" .
  with e h f show ?case by simp
qed

text \<open>
  The tag words (headers and footers) of the blocks of a chain lie inside the chain; a
  memory that agrees on them describes the same chain with the same tags.
\<close>

lemma chain_tags_frame:
  assumes ch: "chain m a bs e"
    and fr: "\<forall>x. unat a \<le> unat x \<and> unat x < unat e
               \<and> (unat x mod 16 = 8 \<or> unat x mod 16 = 12) \<longrightarrow> m' x = m x"
  shows "chain m' a bs e" "tags m' pf bs = tags m pf bs" "lastfree m' pf bs = lastfree m pf bs"
    "\<forall>b \<in> set bs. is_free m' b = is_free m b \<and> bsize m' b = bsize m b"
proof -
  have hf: "m' b = m b \<and> m' (footer m b) = m (footer m b)" if "b \<in> set bs" for b
  proof -
    from chain_mem [OF ch that] have c: "unat a \<le> unat b" "unat b + bsize m b \<le> unat e"
      "unat b mod 16 = 12" "16 \<le> bsize m b" "bsize m b mod 16 = 0"
      by simp_all
    then have "unat a \<le> unat b" "unat b < unat e" "unat b mod 16 = 12" by simp_all
    with fr have 1: "m' b = m b" by blast
    from footer_kind [OF c(3,4,5,2)] c
    have "unat a \<le> unat (footer m b)" "unat (footer m b) < unat e"
      "unat (footer m b) mod 16 = 8"
      by simp_all
    with fr have "m' (footer m b) = m (footer m b)" by blast
    with 1 show ?thesis ..
  qed
  then have HF: "\<forall>b \<in> set bs. m' b = m b \<and> m' (footer m b) = m (footer m b)" by blast
  then have H: "\<forall>b \<in> set bs. m' b = m b" by blast
  from ch H show "chain m' a bs e" by (rule chain_frame)
  from H show "lastfree m' pf bs = lastfree m pf bs" by (rule lastfree_frame)
  from H show "\<forall>b \<in> set bs. is_free m' b = is_free m b \<and> bsize m' b = bsize m b"
    by (simp add: is_free_def bsize_def)
  from HF show "tags m' pf bs = tags m pf bs" by (rule tags_frame_eq)
qed

subsection \<open>Rewriting a merged block\<close>

lemma size_word:
  fixes w :: word_t
  assumes "unat w mod 16 = 0"
  shows "w AND NOT (USED OR PREVFREE) = w" "w AND USED = 0" "w AND PREVFREE = 0"
proof -
  have al: "unat w mod 2 ^ 4 = 0" using assms by simp
  note a = bit_unat_aligned [OF al]
  have three: "(3 :: word_t) = mask 2" and one: "(1 :: word_t) = mask 1"
    by (simp_all add: mask_eq_exp_minus_1)
  have two: "(2 :: word_t) = push_bit 1 1" by simp
  have "w AND NOT 3 = w"
    unfolding three by (rule bit_word_eqI) (auto simp: bit_simps dest: a)
  then show "w AND NOT (USED OR PREVFREE) = w" by (simp add: USED_def PREVFREE_def)
  have "w AND 1 = 0"
    unfolding one by (rule bit_word_eqI) (auto simp: bit_simps dest: a)
  then show "w AND USED = 0" by (simp add: USED_def)
  have "w AND 2 = 0"
    unfolding two by (rule bit_word_eqI) (auto simp: bit_simps dest: a)
  then show "w AND PREVFREE = 0" by (simp add: PREVFREE_def)
qed

lemma merge_tags:
  fixes m m' :: "addr \<Rightarrow> word_t"
  assumes pre: "chain m a xs R" and post: "chain m c ys e"
    and R: "unat R mod 16 = 12" and c: "unat c = unat R + z"
    and z: "16 \<le> z" "z mod 16 = 0" "z < 2 ^ 31"
    and w: "unat w = z" "m' R = w" "m' (c - 4) = w"
    and fr: "\<forall>x. (unat x mod 16 = 8 \<or> unat x mod 16 = 12) \<and> x \<noteq> R \<and> x \<noteq> c - 4
               \<longrightarrow> m' x = m x"
    and t1: "tags m False xs" and nl: "\<not> lastfree m False xs" and t2: "tags m True ys"
  shows "chain m' a (xs @ R # ys) e" "tags m' False (xs @ R # ys)"
    "lastfree m' False (xs @ R # ys) = lastfree m True ys"
    "is_free m' R" "bsize m' R = z"
    "\<forall>b \<in> set xs \<union> set ys. is_free m' b = is_free m b"
proof -
  have ce: "unat c \<le> unat e" using post by (rule chain_le)
  have c4: "unat (c - 4) = unat R + z - 4" using c z by (simp add: unat_sub4)
  have f1: "\<forall>x. unat a \<le> unat x \<and> unat x < unat R
               \<and> (unat x mod 16 = 8 \<or> unat x mod 16 = 12) \<longrightarrow> m' x = m x"
  proof (intro allI impI)
    fix x :: addr assume x: "unat a \<le> unat x \<and> unat x < unat R
               \<and> (unat x mod 16 = 8 \<or> unat x mod 16 = 12)"
    then have "unat x < unat R" by simp
    with c4 z(1) have "unat x \<noteq> unat R" "unat x \<noteq> unat (c - 4)" by linarith+
    then have "x \<noteq> R" "x \<noteq> c - 4" by auto
    with x fr show "m' x = m x" by blast
  qed
  have f2: "\<forall>x. unat c \<le> unat x \<and> unat x < unat e
               \<and> (unat x mod 16 = 8 \<or> unat x mod 16 = 12) \<longrightarrow> m' x = m x"
  proof (intro allI impI)
    fix x :: addr assume x: "unat c \<le> unat x \<and> unat x < unat e
               \<and> (unat x mod 16 = 8 \<or> unat x mod 16 = 12)"
    then have "unat c \<le> unat x" by simp
    with c c4 z(1) have "unat x \<noteq> unat R" "unat x \<noteq> unat (c - 4)" by linarith+
    then have "x \<noteq> R" "x \<noteq> c - 4" by auto
    with x fr show "m' x = m x" by blast
  qed
  note A = chain_tags_frame [OF pre f1] and B = chain_tags_frame [OF post f2]
  have wz: "unat w mod 16 = 0" using w z by simp
  have sz: "bsize m' R = z" and free: "is_free m' R" and npf: "\<not> pfree m' R"
    using w size_word [OF wz] by (simp_all add: bsize_def is_free_def pfree_def)
  have "unat (R + of_nat z) = unat c"
    using c ce unat_step [of R z e] by simp
  then have nx: "R + of_nat z = c" by (simp add: word_unat_eq_iff)
  have step: "chain m' R (R # ys) e"
    using sz nx R z c ce B(1) by simp
  show "chain m' a (xs @ R # ys) e"
    using A(1) step by (auto simp: chain_append)
  have ft: "footer m' R = c - 4" using sz nx by (simp add: footer_def)
  have lf: "\<not> lastfree m' False xs" using nl A(3) by simp
  have "tags m' True ys" using t2 B(2) by simp
  with free npf ft w have "tags m' False (R # ys)" by simp
  moreover have "tags m' False xs" using t1 A(2) by simp
  ultimately show "tags m' False (xs @ R # ys)" using lf by (simp add: tags_append)
  show "lastfree m' False (xs @ R # ys) = lastfree m True ys"
    using free B(3) [of True] by (cases "ys = []") (simp_all add: lastfree_def)
  show "is_free m' R" by (rule free)
  show "bsize m' R = z" by (rule sz)
  show "\<forall>b \<in> set xs \<union> set ys. is_free m' b = is_free m b"
    using A(4) B(4) by auto
qed

lemma list_step_tagsame: "list_step s s' \<Longrightarrow> tagsame (mem s) (mem s')"
  by (simp add: list_step_def tagsame_def)

lemma region_cong:
  assumes "heap_start s' = heap_start s" "heap_end s' = heap_end s" "mem_lo s' = mem_lo s"
    "mem_brk s' = mem_brk s"
  shows "region s' = region s"
  using assms by (simp add: region_def)

lemma links_frame_eq:
  assumes "\<forall>b \<in> set fl. m' (b + 4) = m (b + 4) \<and> m' (b + 8) = m (b + 8)"
  shows "links m' p fl q = links m p fl q"
  using assms by (induction m p fl q rule: links.induct) auto

lemma dll_mem_frame:
  assumes d: "dll s fl"
    and fr: "\<forall>x. unat x mod 16 = 0 \<or> unat x mod 16 = 4 \<longrightarrow> m' x = mem s x"
  shows "dll (s\<lparr>mem := m'\<rparr>) fl"
proof -
  have "m' (b + 4) = mem s (b + 4) \<and> m' (b + 8) = mem s (b + 8)" if "b \<in> set fl" for b
  proof -
    from d that have "node s b" by (simp add: dll_def list_all_iff)
    from node_kinds(3,4) [OF this]
    have k: "unat (b + 4) mod 16 = 0 \<or> unat (b + 4) mod 16 = 4"
      "unat (b + 8) mod 16 = 0 \<or> unat (b + 8) mod 16 = 4"
      by simp_all
    from fr [rule_format, OF k(1)] fr [rule_format, OF k(2)] show ?thesis by simp
  qed
  then have "links m' 0 fl 0 = links (mem s) 0 fl 0" by (intro links_frame_eq) blast
  with d show ?thesis by (simp add: dll_def)
qed

lemma pfree_idem:
  assumes "pfree m x"
  shows "(m x AND NOT 2) OR 2 = m x"
proof -
  have two: "(2 :: word_t) = push_bit 1 1" by simp
  have b: "bit (m x) 1"
  proof (rule ccontr)
    assume n: "\<not> bit (m x) 1"
    have "m x AND push_bit 1 1 = 0"
      by (rule bit_word_eqI) (use n in \<open>auto simp: bit_simps\<close>)
    with assms show False by (simp add: pfree_def PREVFREE_def)
  qed
  show ?thesis
    unfolding two by (rule bit_word_eqI) (use b in \<open>auto simp: bit_simps\<close>)
qed

lemma tagsameD:
  "tagsame m m' \<Longrightarrow> unat x mod 16 = 8 \<or> unat x mod 16 = 12 \<Longrightarrow> m' x = m x"
  unfolding tagsame_def by blast

lemma merge_core:
  fixes m0 :: "addr \<Rightarrow> word_t"
  assumes reg: "region s1"
    and pre: "chain m0 (heap_start s1) xs R" and post: "chain m0 c ys (heap_end s1)"
    and R: "unat R mod 16 = 12" and c: "unat c = unat R + z"
    and z: "16 \<le> z" "z mod 16 = 0" "z < 2 ^ 31"
    and t1: "tags m0 False xs" and nl: "\<not> lastfree m0 False xs" and t2: "tags m0 True ys"
    and pc: "pfree m0 c"
    and ep: "\<not> is_free m0 (heap_end s1)" "pfree m0 (heap_end s1) = lastfree m0 True ys"
    and ts: "tagsame m0 (mem s1)"
    and d: "dll s1 fl1" and nf: "R \<notin> set fl1"
    and vR: "valid s1 R" and nR: "node s1 R"
    and sz: "unat sz = z"
  shows "\<exists>s2 s3. bt_make s1 R sz FREE = Inr s2 \<and> list_add s2 R = Inr s3
     \<and> region s3 \<and> heap_start s3 = heap_start s1 \<and> heap_end s3 = heap_end s1
     \<and> chain (mem s3) (heap_start s3) (xs @ R # ys) (heap_end s3)
     \<and> tags (mem s3) False (xs @ R # ys)
     \<and> epilogue s3 (lastfree (mem s3) False (xs @ R # ys))
     \<and> dll s3 (R # fl1)
     \<and> is_free (mem s3) R \<and> bsize (mem s3) R = z
     \<and> (\<forall>b \<in> set xs \<union> set ys. is_free (mem s3) b = is_free m0 b)"
proof -
  let ?e = "heap_end s1"
  let ?w = "ucast (sz OR ucast FREE) :: word_t"
  have ce: "unat c \<le> unat ?e" using post by (rule chain_le)
  have he: "unat ?e + 4 \<le> unat (mem_brk s1)" "unat ?e mod 16 = 12"
    using reg by (simp_all add: region_def)
  have lt: "unat ?e < 2 ^ 64" using unsigned_less [of ?e] by simp
  have zz: "unat sz < 2 ^ 31" "unat sz mod 16 = 0" "16 \<le> unat sz" using sz z by simp_all
  have "unat (R + sz) = unat R + unat sz"
    using c ce sz lt by (intro unat_plus) simp
  with c sz have Rc: "R + sz = c" by (simp add: word_unat_eq_iff)
  have c4: "unat (c - 4) = unat R + z - 4" using c z by (simp add: unat_sub4)
  have kc: "unat c mod 16 = 12" "unat (c - 4) mod 16 = 8"
    using mod16_footer [OF R z(2,1)] c c4 by simp_all
  have m1c: "mem s1 c = m0 c" using ts kc by (simp add: tagsame_def)
  have idem: "(mem s1 c AND NOT 2) OR 2 = mem s1 c"
    using pc m1c pfree_idem [of "mem s1" c] by (simp add: pfree_def)
  have uw: "unat ?w = z"
  proof -
    have "unat ?w = unat sz mod 2 ^ 32"
      by (simp add: FREE_def unsigned_ucast_eq take_bit_eq_mod)
    with sz z show ?thesis by simp
  qed
  let ?M = "(mem s1)(R := ?w, c - 4 := ?w)"
  let ?s2 = "s1\<lparr>mem := ?M\<rparr>"
  have "bt_make s1 R sz FREE = Inr (s1\<lparr>mem := (mem s1)(R := ?w, R + sz - 4 := ?w,
      R + sz := (mem s1 (R + sz) AND NOT 2) OR 2)\<rparr>)"
    using bt_make_eq [OF vR zz, of FREE] c ce sz he by (simp add: FREE_def)
  also have "(mem s1)(R := ?w, R + sz - 4 := ?w, R + sz := (mem s1 (R + sz) AND NOT 2) OR 2) = ?M"
    unfolding Rc idem
  proof (rule ext)
    have "unat c \<noteq> unat R" "unat c \<noteq> unat (c - 4)" using c c4 z by simp_all
    then have ne: "c \<noteq> R" "c \<noteq> c - 4" by auto
    fix x show "((mem s1)(R := ?w, c - 4 := ?w, c := mem s1 c)) x = ?M x"
      using ne by auto
  qed
  finally have mk: "bt_make s1 R sz FREE = Inr ?s2" .
  have "dll ?s2 fl1"
  proof (rule dll_mem_frame [OF d], intro allI impI)
    fix x :: addr assume "unat x mod 16 = 0 \<or> unat x mod 16 = 4"
    with R kc have "x \<noteq> R" "x \<noteq> c - 4" by auto
    then show "?M x = mem s1 x" by simp
  qed
  moreover have "node ?s2 R" using nR by simp
  ultimately obtain s3 where add: "list_add ?s2 R = Inr s3" and d3: "dll s3 (R # fl1)"
    and ls: "list_step ?s2 s3"
    using list_add_dll [of ?s2 fl1 R] nf by blast
  from ls have flds: "heap_start s3 = heap_start s1" "heap_end s3 = heap_end s1"
    "mem_lo s3 = mem_lo s1" "mem_brk s3 = mem_brk s1"
    and t3: "\<forall>x. unat x mod 16 = 8 \<or> unat x mod 16 = 12 \<longrightarrow> mem s3 x = ?M x"
    by (simp_all add: list_step_def)
  have reg3: "region s3" using reg flds by (simp add: region_def)
  have wR: "mem s3 R = ?w" using t3 R by simp
  have wF: "mem s3 (c - 4) = ?w" using t3 kc by simp
  have fr: "\<forall>x. (unat x mod 16 = 8 \<or> unat x mod 16 = 12) \<and> x \<noteq> R \<and> x \<noteq> c - 4
               \<longrightarrow> mem s3 x = m0 x"
  proof (intro allI impI)
    fix x :: addr
    assume x: "(unat x mod 16 = 8 \<or> unat x mod 16 = 12) \<and> x \<noteq> R \<and> x \<noteq> c - 4"
    then have k: "unat x mod 16 = 8 \<or> unat x mod 16 = 12" by simp
    from t3 [rule_format, OF k] x have "mem s3 x = mem s1 x" by simp
    also from ts k have "\<dots> = m0 x" by (rule tagsameD)
    finally show "mem s3 x = m0 x" .
  qed
  note M = merge_tags [OF pre post R c z uw wR wF fr t1 nl t2]
  have "unat ?e \<noteq> unat R" "unat ?e \<noteq> unat (c - 4)"
    using ce c c4 z by simp_all
  then have "?e \<noteq> R" "?e \<noteq> c - 4" by auto
  with fr he have "mem s3 ?e = m0 ?e" by simp
  with ep M(3) flds have "epilogue s3 (lastfree (mem s3) False (xs @ R # ys))"
    by (simp add: epilogue_def is_free_def pfree_def)
  with mk add reg3 flds M d3 show ?thesis by auto
qed

subsection \<open>What coalesce reads\<close>

lemma scast_bsize:
  assumes "bsize m b < 2 ^ 31" and that: "mem_word = m b"
  shows "(scast (mem_word AND NOT (USED OR PREVFREE)) :: addr) = of_nat (bsize m b)"
proof -
  let ?w = "m b AND NOT (USED OR PREVFREE)"
  have u: "unat ?w < 2 ^ 31" using assms by (simp add: bsize_def)
  have "unat (scast ?w :: addr) = unat ?w" using u by (rule unat_scast_small)
  moreover have "unat (of_nat (unat ?w) :: addr) = unat ?w"
    using u by (simp add: unat_of_nat del: of_nat_unat)
  ultimately have "(scast ?w :: addr) = of_nat (unat ?w)" by (simp only: word_unat_eq_iff)
  then show ?thesis by (simp only: bsize_def that)
qed

lemma chain_snoc:
  assumes "chain m a (xs @ [P]) B"
  shows "chain m a xs P" "P + of_nat (bsize m P) = B" "unat P mod 16 = 12" "16 \<le> bsize m P"
    "bsize m P mod 16 = 0" "bsize m P < 2 ^ 31" "unat B = unat P + bsize m P"
proof -
  from assms obtain c where c: "chain m a xs c" "chain m c [P] B"
    by (auto simp: chain_append)
  then show "chain m a xs P" "P + of_nat (bsize m P) = B" "unat P mod 16 = 12" "16 \<le> bsize m P"
    "bsize m P mod 16 = 0" "bsize m P < 2 ^ 31"
    by simp_all
  from c have "unat P + bsize m P \<le> unat B" "P + of_nat (bsize m P) = B" by simp_all
  with unat_step [of P "bsize m P" B] show "unat B = unat P + bsize m P" by simp
qed

lemma tags_snoc_free:
  assumes "tags m pf (xs @ [P])" "is_free m P"
  shows "tags m pf xs" "\<not> lastfree m pf xs" "\<not> pfree m P" "m (footer m P) = m P"
  using assms by (simp_all add: tags_append)

lemma valid_heap_end: "region s \<Longrightarrow> unat (heap_start s) \<le> unat (heap_end s) \<Longrightarrow> valid s (heap_end s)"
proof -
  assume r: "region s" and le: "unat (heap_start s) \<le> unat (heap_end s)"
  from r have "unat (heap_end s) mod 16 = 12" by (simp add: region_def)
  note al = mod16_12 [OF this]
  with r le show ?thesis by (simp add: valid_nat region_def)
qed

lemma freed_reads:
  assumes f: "freed_inv s xs B ys fl"
  defines "m \<equiv> mem s"
  defines "nB \<equiv> B + of_nat (bsize (mem s) B)"
  shows "chain m (heap_start s) xs B" "chain m nB ys (heap_end s)"
    "unat B mod 16 = 12" "16 \<le> bsize m B" "bsize m B mod 16 = 0" "bsize m B < 2 ^ 31"
    "unat nB = unat B + bsize m B"
    "valid s B" "node s B"
    "bt_next s B = Inr nB"
    "bt_get_prevfree s B = Inr (m B AND PREVFREE)"
    "bt_free s nB = Inr (is_free m nB)"
    "\<exists>p. bt_prev s B = Inr p"
    "bt_size s B = Inr (m B AND NOT (USED OR PREVFREE))"
proof -
  from f have reg: "region s" and ch: "chain m (heap_start s) (xs @ B # ys) (heap_end s)"
    by (simp_all add: freed_inv_def m_def)
  from ch obtain c where c: "chain m (heap_start s) xs c" "chain m c (B # ys) (heap_end s)"
    by (auto simp: chain_append)
  then have cB: "c = B" by simp
  with c show 1: "chain m (heap_start s) xs B" by simp
  from c cB show 2: "chain m nB ys (heap_end s)" and 3: "unat B mod 16 = 12"
    and 4: "16 \<le> bsize m B" and 5: "bsize m B mod 16 = 0" and 6: "bsize m B < 2 ^ 31"
    by (simp_all add: nB_def m_def)
  from c cB have le: "unat B + bsize m B \<le> unat (heap_end s)" by simp
  then show 7: "unat nB = unat B + bsize m B"
    unfolding nB_def m_def by (rule unat_step)
  have Bin: "B \<in> set (xs @ B # ys)" by simp
  note bv = block_valid [OF reg ch [unfolded m_def] Bin]
  from bv show vB: "valid s B" and "node s B" by simp_all
  from bv have v4: "valid s (B - 4)" by simp
  have sc: "(scast (m B AND NOT (USED OR PREVFREE)) :: addr) = of_nat (bsize m B)"
    using 6 by (rule scast_bsize) simp
  have nle: "nB \<le> heap_end s" using le 7 by (simp add: word_le_nat_alt)
  show "bt_next s B = Inr nB"
    using vB sc nle by (simp add: bt_next_def bt_size_def nB_def m_def Let_def)
  show "bt_get_prevfree s B = Inr (m B AND PREVFREE)"
    using vB by (simp add: bt_get_prevfree_def m_def)
  show "bt_size s B = Inr (m B AND NOT (USED OR PREVFREE))"
    using vB by (simp add: bt_size_def m_def)
  show "\<exists>p. bt_prev s B = Inr p"
    using v4 by (simp add: bt_prev_def bt_size_def Let_def)
  have "valid s nB"
  proof (cases ys)
    case Nil
    with 2 have "nB = heap_end s" by simp
    moreover have "unat (heap_start s) \<le> unat (heap_end s)" using ch by (rule chain_le)
    ultimately show ?thesis using reg by (simp add: valid_heap_end)
  next
    case (Cons N ys')
    with 2 have "nB = N" by simp
    moreover have "N \<in> set (xs @ B # ys)" using Cons by simp
    ultimately show ?thesis using block_valid(2) [OF reg ch [unfolded m_def]] by simp
  qed
  then show "bt_free s nB = Inr (is_free m nB)"
    by (simp add: bt_free_def is_free_def m_def)
qed

subsection \<open>The four cases of coalesce\<close>

lemma list_step_inv:
  assumes st: "list_step s s'" and reg: "region s"
    and ch: "chain (mem s) (heap_start s) bs (heap_end s)"
  shows "region s'" "heap_start s' = heap_start s" "heap_end s' = heap_end s"
    "chain (mem s') (heap_start s') bs (heap_end s')"
    "tags (mem s') pf bs = tags (mem s) pf bs"
    "lastfree (mem s') pf bs = lastfree (mem s) pf bs"
    "\<forall>b \<in> set bs. is_free (mem s') b = is_free (mem s) b \<and> bsize (mem s') b = bsize (mem s) b"
    "epilogue s' q = epilogue s q"
proof -
  from st have eq: "heap_start s' = heap_start s" "heap_end s' = heap_end s"
    "mem_lo s' = mem_lo s" "mem_brk s' = mem_brk s"
    by (simp_all add: list_step_def)
  then show "heap_start s' = heap_start s" "heap_end s' = heap_end s" by simp_all
  from region_cong [OF eq] reg show "region s'" by simp
  from st have ts: "tagsame (mem s) (mem s')" by (rule list_step_tagsame)
  have fr: "\<forall>x. unat (heap_start s) \<le> unat x \<and> unat x < unat (heap_end s)
               \<and> (unat x mod 16 = 8 \<or> unat x mod 16 = 12) \<longrightarrow> mem s' x = mem s x"
    using ts unfolding tagsame_def by blast
  from chain_tags_frame [OF ch fr] eq
  show "chain (mem s') (heap_start s') bs (heap_end s')"
    "tags (mem s') pf bs = tags (mem s) pf bs"
    "lastfree (mem s') pf bs = lastfree (mem s) pf bs"
    "\<forall>b \<in> set bs. is_free (mem s') b = is_free (mem s) b \<and> bsize (mem s') b = bsize (mem s) b"
    by simp_all
  from reg have "unat (heap_end s) mod 16 = 12" by (simp add: region_def)
  then have "mem s' (heap_end s) = mem s (heap_end s)" using tagsameD [OF ts] by blast
  then show "epilogue s' q = epilogue s q"
    using eq by (simp add: epilogue_def is_free_def pfree_def)
qed

lemma freed_notin:
  assumes f: "freed_inv s xs B ys fl"
  shows "B \<notin> set xs" "B \<notin> set ys" "B \<notin> set fl" "distinct (xs @ ys)"
proof -
  from f have "chain (mem s) (heap_start s) (xs @ B # ys) (heap_end s)"
    by (simp add: freed_inv_def)
  then have "distinct (xs @ B # ys)" by (rule chain_distinct)
  then show "B \<notin> set xs" "B \<notin> set ys" "distinct (xs @ ys)" by simp_all
  moreover from f have "set fl = {b \<in> set (xs @ ys). is_free (mem s) b}"
    by (simp add: freed_inv_def)
  ultimately show "B \<notin> set fl" by simp
qed

lemma coalesce_eval:
  assumes f: "freed_inv s xs B ys fl"
  shows "\<exists>prev. bt_prev s B = Inr prev \<and> coalesce s B =
     (let next = B + of_nat (bsize (mem s) B) in
      if \<not> pfree (mem s) B \<and> \<not> is_free (mem s) next then
       bnd (list_add s B) (\<lambda>s1. Inr (B, s1))
     else if \<not> pfree (mem s) B \<and> is_free (mem s) next then
       bnd (list_remove s next) (\<lambda>s1.
       bnd (bt_size s1 B) (\<lambda>a.
       bnd (bt_size s1 next) (\<lambda>b.
       bnd (bt_make s1 B (scast (a + b)) FREE) (\<lambda>s2.
       bnd (list_add s2 B) (\<lambda>s3. Inr (B, s3))))))
     else if pfree (mem s) B \<and> \<not> is_free (mem s) next then
       bnd (list_remove s prev) (\<lambda>s1.
       bnd (bt_size s1 prev) (\<lambda>a.
       bnd (bt_size s1 B) (\<lambda>b.
       bnd (bt_make s1 prev (scast (a + b)) FREE) (\<lambda>s2.
       bnd (list_add s2 prev) (\<lambda>s3. Inr (prev, s3))))))
     else
       bnd (list_remove s prev) (\<lambda>s1.
       bnd (bt_size s1 prev) (\<lambda>a.
       bnd (bt_size s1 B) (\<lambda>b.
       bnd (bt_size s1 next) (\<lambda>c.
       bnd (bt_make s1 prev (scast (a + b + c)) FREE) (\<lambda>s2.
       bnd (list_add s2 prev) (\<lambda>s3.
       bnd (list_remove s3 next) (\<lambda>s4. Inr (prev, s4)))))))))"
proof -
  note r = freed_reads [OF f]
  from r(13) obtain p where p: "bt_prev s B = Inr p" by blast
  have "coalesce s B =
     (let prev = p; next = B + of_nat (bsize (mem s) B) in
      if \<not> pfree (mem s) B \<and> \<not> is_free (mem s) next then
       bnd (list_add s B) (\<lambda>s1. Inr (B, s1))
     else if \<not> pfree (mem s) B \<and> is_free (mem s) next then
       bnd (list_remove s next) (\<lambda>s1.
       bnd (bt_size s1 B) (\<lambda>a.
       bnd (bt_size s1 next) (\<lambda>b.
       bnd (bt_make s1 B (scast (a + b)) FREE) (\<lambda>s2.
       bnd (list_add s2 B) (\<lambda>s3. Inr (B, s3))))))
     else if pfree (mem s) B \<and> \<not> is_free (mem s) next then
       bnd (list_remove s prev) (\<lambda>s1.
       bnd (bt_size s1 prev) (\<lambda>a.
       bnd (bt_size s1 B) (\<lambda>b.
       bnd (bt_make s1 prev (scast (a + b)) FREE) (\<lambda>s2.
       bnd (list_add s2 prev) (\<lambda>s3. Inr (prev, s3))))))
     else
       bnd (list_remove s prev) (\<lambda>s1.
       bnd (bt_size s1 prev) (\<lambda>a.
       bnd (bt_size s1 B) (\<lambda>b.
       bnd (bt_size s1 next) (\<lambda>c.
       bnd (bt_make s1 prev (scast (a + b + c)) FREE) (\<lambda>s2.
       bnd (list_add s2 prev) (\<lambda>s3.
       bnd (list_remove s3 next) (\<lambda>s4. Inr (prev, s4)))))))))"
    unfolding coalesce_def p r(10) r(11) r(12) bnd_Inr Let_def pfree_def
    by simp
  with p show ?thesis unfolding Let_def by blast
qed

lemma freed_tags_all:
  assumes f: "freed_inv s xs B ys fl"
    and np: "\<not> pfree (mem s) B"
    and nn: "\<not> is_free (mem s) (B + of_nat (bsize (mem s) B))"
  shows "tags (mem s) False (xs @ B # ys)"
    "lastfree (mem s) False (xs @ B # ys) = lastfree (mem s) True ys"
    "tags (mem s) True ys"
proof -
  note r = freed_reads [OF f]
  from f have t1: "tags (mem s) False xs" and pB: "pfree (mem s) B = lastfree (mem s) False xs"
    and fB: "is_free (mem s) B" and ft: "mem s (footer (mem s) B) = mem s B"
    and ty: "case ys of [] \<Rightarrow> True | N # ys' \<Rightarrow> pfree (mem s) N \<and> tags (mem s) (is_free (mem s) N) ys'"
    by (simp_all add: freed_inv_def)
  show 3: "tags (mem s) True ys"
  proof (cases ys)
    case Nil
    then show ?thesis by simp
  next
    case (Cons N ys')
    with r(2) have "B + of_nat (bsize (mem s) B) = N" by simp
    with nn have "\<not> is_free (mem s) N" by simp
    with ty Cons show ?thesis by simp
  qed
  from t1 pB np fB ft 3 show "tags (mem s) False (xs @ B # ys)"
    by (simp add: tags_append)
  from fB show "lastfree (mem s) False (xs @ B # ys) = lastfree (mem s) True ys"
    by (simp add: lastfree_def)
qed

lemma coalesce_FF:
  assumes f: "freed_inv s xs B ys fl"
    and np: "\<not> pfree (mem s) B"
    and nn: "\<not> is_free (mem s) (B + of_nat (bsize (mem s) B))"
  shows "\<exists>s'. coalesce s B = Inr (B, s') \<and> heap_inv s' (xs @ B # ys) (B # fl)
     \<and> is_free (mem s') B \<and> bsize (mem s') B = bsize (mem s) B"
proof -
  note r = freed_reads [OF f]
  from f have reg: "region s" and ch: "chain (mem s) (heap_start s) (xs @ B # ys) (heap_end s)"
    and d: "dll s fl" and fB: "is_free (mem s) B"
    and ep: "epilogue s (lastfree (mem s) True ys)"
    and sf: "set fl = {b \<in> set (xs @ ys). is_free (mem s) b}"
    by (simp_all add: freed_inv_def)
  from list_add_dll [OF d r(9) freed_notin(3) [OF f]]
  obtain s' where a: "list_add s B = Inr s'" and d': "dll s' (B # fl)" and st: "list_step s s'"
    by blast
  from coalesce_eval [OF f] np nn a have ev: "coalesce s B = Inr (B, s')"
    by (auto simp: Let_def)
  note li = list_step_inv [OF st reg ch]
  note ta = freed_tags_all [OF f np nn]
  have fs: "is_free (mem s') b = is_free (mem s) b" if "b \<in> set (xs @ B # ys)" for b
    using li(7) that by blast
  have "set (B # fl) = {b \<in> set (xs @ B # ys). is_free (mem s') b}"
  proof -
    have "{b \<in> set (xs @ B # ys). is_free (mem s') b} = {b \<in> set (xs @ B # ys). is_free (mem s) b}"
      using fs by blast
    also have "\<dots> = insert B {b \<in> set (xs @ ys). is_free (mem s) b}"
      using fB by auto
    finally show ?thesis using sf by simp
  qed
  moreover have "epilogue s' (lastfree (mem s') False (xs @ B # ys))"
    using li(8) [of "lastfree (mem s) True ys"] ep ta(2) li(6) [of False] by simp
  moreover have "tags (mem s') False (xs @ B # ys)"
    using li(5) [of False] ta(1) by simp
  ultimately have "heap_inv s' (xs @ B # ys) (B # fl)"
    using li(1) li(4) d' unfolding heap_inv_def by blast
  moreover have "is_free (mem s') B" "bsize (mem s') B = bsize (mem s) B"
    using li(7) fB by simp_all
  ultimately show ?thesis using ev by blast
qed

lemma list_step_access:
  assumes st: "list_step s s'"
  shows "valid s' a = valid s a" "node s' a = node s a"
  using st by (simp_all add: list_step_def valid_def node_def)

lemma list_step_size:
  assumes st: "list_step s s'" and v: "valid s b" and k: "unat b mod 16 = 12"
  shows "bt_size s' b = Inr (mem s b AND NOT (USED OR PREVFREE))"
proof -
  from st k have "mem s' b = mem s b" by (simp add: list_step_def)
  moreover from st v have "valid s' b" by (simp add: list_step_access)
  ultimately show ?thesis by (simp add: bt_size_def)
qed

lemma sum2:
  fixes a b :: word_t
  assumes "unat a + unat b < 2 ^ 31"
  shows "unat (scast (a + b) :: size_t) = unat a + unat b"
proof -
  from assms have "unat a + unat b < 2 ^ LENGTH(32)" by simp
  then have e: "unat (a + b) = unat a + unat b" by (simp add: unat_add_lem [THEN iffD1])
  with assms have "unat (a + b) < 2 ^ 31" by simp
  from unat_scast_small [OF this] e show ?thesis by simp
qed

lemma sum3:
  fixes a b c :: word_t
  assumes "unat a + unat b + unat c < 2 ^ 31"
  shows "unat (scast (a + b + c) :: size_t) = unat a + unat b + unat c"
proof -
  from assms have "unat a + unat b < 2 ^ LENGTH(32)" by simp
  then have e: "unat (a + b) = unat a + unat b" by (simp add: unat_add_lem [THEN iffD1])
  with assms have "unat (a + b) + unat c < 2 ^ 31" by simp
  from sum2 [OF this] e show ?thesis by simp
qed

lemma span_small:
  assumes reg: "region s" and a: "unat (heap_start s) \<le> a" and e: "a + z \<le> unat (heap_end s)"
  shows "z < 2 ^ 31"
proof -
  from reg have "34359738368 \<le> unat (mem_lo s)" "unat (mem_lo s) + 4 \<le> unat (heap_start s)"
    "unat (heap_end s) + 4 \<le> unat (mem_brk s)" "unat (mem_brk s) \<le> 34359738368 + 2 ^ 31"
    by (simp_all add: region_def)
  with a e show ?thesis by simp
qed

lemma coalesce_FT:
  assumes f: "freed_inv s xs B (N # ys) fl"
    and np: "\<not> pfree (mem s) B"
    and fn: "is_free (mem s) N"
  shows "\<exists>s'. coalesce s B = Inr (B, s') \<and> heap_inv s' (xs @ B # ys) (B # remove1 N fl)
     \<and> is_free (mem s') B \<and> bsize (mem s') B = bsize (mem s) B + bsize (mem s) N"
proof -
  let ?m = "mem s"
  let ?zB = "bsize ?m B"
  let ?zN = "bsize ?m N"
  let ?c = "N + of_nat ?zN"
  note r = freed_reads [OF f]
  from f have reg: "region s"
    and ch: "chain ?m (heap_start s) (xs @ B # N # ys) (heap_end s)"
    and t1: "tags ?m False xs" and pB: "pfree ?m B = lastfree ?m False xs"
    and pN: "pfree ?m N" and t2: "tags ?m (is_free ?m N) ys"
    and d: "dll s fl" and fB: "is_free ?m B"
    and ep: "epilogue s (lastfree ?m True (N # ys))"
    and sf: "set fl = {b \<in> set (xs @ N # ys). is_free ?m b}"
    by (simp_all add: freed_inv_def)
  from r(2) have nB: "B + of_nat ?zB = N" and chN: "chain ?m ?c ys (heap_end s)"
    and kN: "unat N mod 16 = 12" and zN: "16 \<le> ?zN" "?zN mod 16 = 0"
    and eN: "unat N + ?zN \<le> unat (heap_end s)"
    by simp_all
  from r(7) nB have uN: "unat N = unat B + ?zB" by simp
  from unat_step [OF eN] have uc: "unat ?c = unat N + ?zN" .
  have Nfl: "N \<in> set fl" using sf fn by simp
  from list_remove_dll [OF d Nfl]
  obtain s1 where rm: "list_remove s N = Inr s1" and d1: "dll s1 (remove1 N fl)"
    and st: "list_step s s1"
    by blast
  note li = list_step_inv(1-3) [OF st reg ch]
  have Nin: "N \<in> set (xs @ B # N # ys)" by simp
  note vN = block_valid(2) [OF reg ch Nin]
  let ?a = "?m B AND NOT (USED OR PREVFREE)"
  let ?b = "?m N AND NOT (USED OR PREVFREE)"
  have sa: "bt_size s1 B = Inr ?a" using st r(8) r(3) by (rule list_step_size)
  have sb: "bt_size s1 N = Inr ?b" using st vN kN by (rule list_step_size)
  have ua: "unat ?a = ?zB" and ub: "unat ?b = ?zN" by (simp_all add: bsize_def)
  have hsB: "unat (heap_start s) \<le> unat B" using r(1) by (rule chain_le)
  have "unat B + (?zB + ?zN) \<le> unat (heap_end s)" using eN uN by simp
  with reg hsB have small: "?zB + ?zN < 2 ^ 31" by (rule span_small)
  let ?sz = "scast (?a + ?b) :: size_t"
  have usz: "unat ?sz = ?zB + ?zN" using sum2 [of ?a ?b] small ua ub by simp
  have nl: "\<not> lastfree ?m False xs" using pB np by simp
  have t2': "tags ?m True ys" using t2 fn by simp
  have lf: "lastfree ?m True (N # ys) = lastfree ?m True ys"
    using fn by (simp add: lastfree_def)
  have pc: "pfree ?m ?c"
  proof (cases ys)
    case Nil
    with chN have "?c = heap_end s" by simp
    with ep Nil fn show ?thesis by (simp add: epilogue_def lastfree_def)
  next
    case (Cons N' ys')
    with chN have "?c = N'" by simp
    with t2' Cons show ?thesis by simp
  qed
  from ep lf have ep': "\<not> is_free ?m (heap_end s1)"
    "pfree ?m (heap_end s1) = lastfree ?m True ys"
    by (simp_all add: epilogue_def li)
  have nf: "B \<notin> set (remove1 N fl)" using freed_notin(3) [OF f] by (auto dest: notin_set_remove1)
  have "\<exists>s2 s3. bt_make s1 B ?sz FREE = Inr s2 \<and> list_add s2 B = Inr s3
     \<and> region s3 \<and> heap_start s3 = heap_start s1 \<and> heap_end s3 = heap_end s1
     \<and> chain (mem s3) (heap_start s3) (xs @ B # ys) (heap_end s3)
     \<and> tags (mem s3) False (xs @ B # ys)
     \<and> epilogue s3 (lastfree (mem s3) False (xs @ B # ys))
     \<and> dll s3 (B # remove1 N fl)
     \<and> is_free (mem s3) B \<and> bsize (mem s3) B = ?zB + ?zN
     \<and> (\<forall>b \<in> set xs \<union> set ys. is_free (mem s3) b = is_free ?m b)"
  proof (rule merge_core [where c = ?c])
    show "region s1" by (rule li)
    show "chain ?m (heap_start s1) xs B" using r(1) by (simp add: li)
    show "chain ?m ?c ys (heap_end s1)" using chN by (simp add: li)
    show "unat B mod 16 = 12" by (rule r(3))
    show "unat ?c = unat B + (?zB + ?zN)" using uc uN by simp
    show "16 \<le> ?zB + ?zN" using zN by simp
    show "(?zB + ?zN) mod 16 = 0" using zN(2) r(5) by (simp add: mod_add_eq [symmetric])
    show "?zB + ?zN < 2 ^ 31" by (rule small)
    show "tags ?m False xs" by (rule t1)
    show "\<not> lastfree ?m False xs" by (rule nl)
    show "tags ?m True ys" by (rule t2')
    show "pfree ?m ?c" by (rule pc)
    show "\<not> is_free ?m (heap_end s1)" by (rule ep')
    show "pfree ?m (heap_end s1) = lastfree ?m True ys" by (rule ep')
    show "tagsame ?m (mem s1)" using st by (rule list_step_tagsame)
    show "dll s1 (remove1 N fl)" by (rule d1)
    show "B \<notin> set (remove1 N fl)" by (rule nf)
    show "valid s1 B" using r(8) by (simp add: list_step_access [OF st])
    show "node s1 B" using r(9) by (simp add: list_step_access [OF st])
    show "unat ?sz = ?zB + ?zN" by (rule usz)
  qed
  then obtain s2 s3 where mk: "bt_make s1 B ?sz FREE = Inr s2" and ad: "list_add s2 B = Inr s3"
    and reg3: "region s3"
    and ch3: "chain (mem s3) (heap_start s3) (xs @ B # ys) (heap_end s3)"
    and tg3: "tags (mem s3) False (xs @ B # ys)"
    and ep3: "epilogue s3 (lastfree (mem s3) False (xs @ B # ys))"
    and d3: "dll s3 (B # remove1 N fl)"
    and fB3: "is_free (mem s3) B" and zB3: "bsize (mem s3) B = ?zB + ?zN"
    and same: "\<forall>b \<in> set xs \<union> set ys. is_free (mem s3) b = is_free ?m b"
    by blast
  have ev: "coalesce s B = Inr (B, s3)"
    using coalesce_eval [OF f] np fn nB rm sa sb mk ad by (auto simp: Let_def)
  have dis: "distinct (xs @ B # N # ys)" using ch by (rule chain_distinct)
  from d Nfl have dfl: "distinct fl" by (auto simp: dll_def split: if_splits)
  have "set (B # remove1 N fl) = {b \<in> set (xs @ B # ys). is_free (mem s3) b}"
  proof -
    have "set (remove1 N fl) = set fl - {N}" using dfl by simp
    also have "\<dots> = {b \<in> set xs \<union> set ys. is_free ?m b}" using sf dis by auto
    also have "\<dots> = {b \<in> set xs \<union> set ys. is_free (mem s3) b}" using same by blast
    finally show ?thesis using fB3 by auto
  qed
  with reg3 ch3 tg3 ep3 d3 have "heap_inv s3 (xs @ B # ys) (B # remove1 N fl)"
    unfolding heap_inv_def by blast
  with ev fB3 zB3 show ?thesis by blast
qed

lemma freed_next_used:
  assumes f: "freed_inv s xs B ys fl"
    and nn: "\<not> is_free (mem s) (B + of_nat (bsize (mem s) B))"
  shows "tags (mem s) True ys" "pfree (mem s) (B + of_nat (bsize (mem s) B))"
proof -
  note r = freed_reads [OF f]
  from f have ty: "case ys of [] \<Rightarrow> True | N # ys' \<Rightarrow> pfree (mem s) N \<and> tags (mem s) (is_free (mem s) N) ys'"
    and ep: "epilogue s (lastfree (mem s) True ys)"
    by (simp_all add: freed_inv_def)
  show "tags (mem s) True ys"
  proof (cases ys)
    case Nil
    then show ?thesis by simp
  next
    case (Cons N ys')
    with r(2) have "B + of_nat (bsize (mem s) B) = N" by simp
    with nn have "\<not> is_free (mem s) N" by simp
    with ty Cons show ?thesis by simp
  qed
  show "pfree (mem s) (B + of_nat (bsize (mem s) B))"
  proof (cases ys)
    case Nil
    with r(2) have "B + of_nat (bsize (mem s) B) = heap_end s" by simp
    with ep Nil show ?thesis by (simp add: epilogue_def lastfree_def)
  next
    case (Cons N ys')
    with r(2) have "B + of_nat (bsize (mem s) B) = N" by simp
    with ty Cons show ?thesis by simp
  qed
qed

lemma freed_prev_free:
  assumes f: "freed_inv s (xs @ [P]) B ys fl" and fp: "is_free (mem s) P"
  shows "bt_prev s B = Inr P" "pfree (mem s) B" "tags (mem s) False xs"
    "\<not> lastfree (mem s) False xs" "P \<in> set fl" "valid s P" "node s P"
    "chain (mem s) (heap_start s) xs P" "unat B = unat P + bsize (mem s) P"
    "unat P mod 16 = 12" "16 \<le> bsize (mem s) P" "bsize (mem s) P mod 16 = 0"
proof -
  let ?m = "mem s"
  note r = freed_reads [OF f]
  from f have reg: "region s"
    and ch: "chain ?m (heap_start s) ((xs @ [P]) @ B # ys) (heap_end s)"
    and t1: "tags ?m False (xs @ [P])" and pB: "pfree ?m B = lastfree ?m False (xs @ [P])"
    and sf: "set fl = {b \<in> set ((xs @ [P]) @ ys). is_free ?m b}"
    by (simp_all add: freed_inv_def)
  note cs = chain_snoc [OF r(1)]
  note ts = tags_snoc_free [OF t1 fp]
  show "tags ?m False xs" "\<not> lastfree ?m False xs" by (rule ts)+
  show "pfree ?m B" using pB fp by (simp add: lastfree_def)
  show "P \<in> set fl" using sf fp by simp
  have Pin: "P \<in> set ((xs @ [P]) @ B # ys)" by simp
  from block_valid [OF reg ch Pin] show "valid s P" "node s P" by simp_all
  show "chain ?m (heap_start s) xs P" "unat B = unat P + bsize ?m P"
    "unat P mod 16 = 12" "16 \<le> bsize ?m P" "bsize ?m P mod 16 = 0"
    by (rule cs)+
  have Bin: "B \<in> set ((xs @ [P]) @ B # ys)" by simp
  note v4 = block_valid(3) [OF reg ch Bin]
  have ft: "footer ?m P = B - 4" using cs(2) by (simp add: footer_def)
  with ts(4) have w: "?m (B - 4) = ?m P" by simp
  have sc: "(scast (?m (B - 4) AND NOT (USED OR PREVFREE)) :: addr) = of_nat (bsize ?m P)"
    using cs(6) w by (rule scast_bsize)
  have bk: "B - of_nat (bsize ?m P) = P" using cs(2) by (simp add: algebra_simps)
  have "unat (heap_start s) \<le> unat P" using cs(1) by (rule chain_le)
  then have le: "heap_start s \<le> P" by (simp add: word_le_nat_alt)
  show "bt_prev s B = Inr P"
    using v4 sc bk le by (simp add: bt_prev_def bt_size_def Let_def)
qed

lemma coalesce_TF:
  assumes f: "freed_inv s (xs @ [P]) B ys fl"
    and fp: "is_free (mem s) P"
    and nn: "\<not> is_free (mem s) (B + of_nat (bsize (mem s) B))"
  shows "\<exists>s'. coalesce s B = Inr (P, s') \<and> heap_inv s' (xs @ P # ys) (P # remove1 P fl)
     \<and> is_free (mem s') P \<and> bsize (mem s') P = bsize (mem s) P + bsize (mem s) B"
proof -
  let ?m = "mem s"
  let ?zB = "bsize ?m B"
  let ?zP = "bsize ?m P"
  let ?c = "B + of_nat ?zB"
  note r = freed_reads [OF f]
  note q = freed_prev_free [OF f fp]
  note u = freed_next_used [OF f nn]
  from f have reg: "region s"
    and ch: "chain ?m (heap_start s) ((xs @ [P]) @ B # ys) (heap_end s)"
    and d: "dll s fl"
    and ep: "epilogue s (lastfree ?m True ys)"
    and sf: "set fl = {b \<in> set ((xs @ [P]) @ ys). is_free ?m b}"
    by (simp_all add: freed_inv_def)
  from list_remove_dll [OF d q(5)]
  obtain s1 where rm: "list_remove s P = Inr s1" and d1: "dll s1 (remove1 P fl)"
    and st: "list_step s s1"
    by blast
  note li = list_step_inv(1-3) [OF st reg ch]
  let ?a = "?m P AND NOT (USED OR PREVFREE)"
  let ?b = "?m B AND NOT (USED OR PREVFREE)"
  have sa: "bt_size s1 P = Inr ?a" using st q(6) q(10) by (rule list_step_size)
  have sb: "bt_size s1 B = Inr ?b" using st r(8) r(3) by (rule list_step_size)
  have ua: "unat ?a = ?zP" and ub: "unat ?b = ?zB" by (simp_all add: bsize_def)
  have hsP: "unat (heap_start s) \<le> unat P" using q(8) by (rule chain_le)
  have eB: "unat ?c \<le> unat (heap_end s)" using r(2) by (rule chain_le)
  then have "unat P + (?zP + ?zB) \<le> unat (heap_end s)" using r(7) q(9) by simp
  with reg hsP have small: "?zP + ?zB < 2 ^ 31" by (rule span_small)
  let ?sz = "scast (?a + ?b) :: size_t"
  have usz: "unat ?sz = ?zP + ?zB" using sum2 [of ?a ?b] small ua ub by simp
  from ep have ep': "\<not> is_free ?m (heap_end s1)"
    "pfree ?m (heap_end s1) = lastfree ?m True ys"
    by (simp_all add: epilogue_def li)
  from d q(5) have dfl: "distinct fl" by (auto simp: dll_def split: if_splits)
  then have nf: "P \<notin> set (remove1 P fl)" by simp
  have "\<exists>s2 s3. bt_make s1 P ?sz FREE = Inr s2 \<and> list_add s2 P = Inr s3
     \<and> region s3 \<and> heap_start s3 = heap_start s1 \<and> heap_end s3 = heap_end s1
     \<and> chain (mem s3) (heap_start s3) (xs @ P # ys) (heap_end s3)
     \<and> tags (mem s3) False (xs @ P # ys)
     \<and> epilogue s3 (lastfree (mem s3) False (xs @ P # ys))
     \<and> dll s3 (P # remove1 P fl)
     \<and> is_free (mem s3) P \<and> bsize (mem s3) P = ?zP + ?zB
     \<and> (\<forall>b \<in> set xs \<union> set ys. is_free (mem s3) b = is_free ?m b)"
  proof (rule merge_core [where c = ?c])
    show "region s1" by (rule li)
    show "chain ?m (heap_start s1) xs P" using q(8) by (simp add: li)
    show "chain ?m ?c ys (heap_end s1)" using r(2) by (simp add: li)
    show "unat P mod 16 = 12" by (rule q(10))
    show "unat ?c = unat P + (?zP + ?zB)" using r(7) q(9) by simp
    show "16 \<le> ?zP + ?zB" using q(11) by simp
    show "(?zP + ?zB) mod 16 = 0" using q(12) r(5) by (simp add: mod_add_eq [symmetric])
    show "?zP + ?zB < 2 ^ 31" by (rule small)
    show "tags ?m False xs" by (rule q(3))
    show "\<not> lastfree ?m False xs" by (rule q(4))
    show "tags ?m True ys" by (rule u(1))
    show "pfree ?m ?c" by (rule u(2))
    show "\<not> is_free ?m (heap_end s1)" by (rule ep')
    show "pfree ?m (heap_end s1) = lastfree ?m True ys" by (rule ep')
    show "tagsame ?m (mem s1)" using st by (rule list_step_tagsame)
    show "dll s1 (remove1 P fl)" by (rule d1)
    show "P \<notin> set (remove1 P fl)" by (rule nf)
    show "valid s1 P" using q(6) by (simp add: list_step_access [OF st])
    show "node s1 P" using q(7) by (simp add: list_step_access [OF st])
    show "unat ?sz = ?zP + ?zB" by (rule usz)
  qed
  then obtain s2 s3 where mk: "bt_make s1 P ?sz FREE = Inr s2" and ad: "list_add s2 P = Inr s3"
    and reg3: "region s3"
    and ch3: "chain (mem s3) (heap_start s3) (xs @ P # ys) (heap_end s3)"
    and tg3: "tags (mem s3) False (xs @ P # ys)"
    and ep3: "epilogue s3 (lastfree (mem s3) False (xs @ P # ys))"
    and d3: "dll s3 (P # remove1 P fl)"
    and fP3: "is_free (mem s3) P" and zP3: "bsize (mem s3) P = ?zP + ?zB"
    and same: "\<forall>b \<in> set xs \<union> set ys. is_free (mem s3) b = is_free ?m b"
    by blast
  from coalesce_eval [OF f] q(1) have ev0: "coalesce s B =
       bnd (list_remove s P) (\<lambda>s1.
       bnd (bt_size s1 P) (\<lambda>a.
       bnd (bt_size s1 B) (\<lambda>b.
       bnd (bt_make s1 P (scast (a + b)) FREE) (\<lambda>s2.
       bnd (list_add s2 P) (\<lambda>s3. Inr (P, s3))))))"
    using q(2) nn by (auto simp: Let_def)
  have ev: "coalesce s B = Inr (P, s3)"
    unfolding ev0 using rm sa sb mk ad by simp
  have dis: "distinct ((xs @ [P]) @ B # ys)" using ch by (rule chain_distinct)
  have "set (P # remove1 P fl) = {b \<in> set (xs @ P # ys). is_free (mem s3) b}"
  proof -
    have "set (remove1 P fl) = set fl - {P}" using dfl by simp
    also have "\<dots> = {b \<in> set xs \<union> set ys. is_free ?m b}" using sf dis by auto
    also have "\<dots> = {b \<in> set xs \<union> set ys. is_free (mem s3) b}" using same by blast
    finally show ?thesis using fP3 by auto
  qed
  with reg3 ch3 tg3 ep3 d3 have "heap_inv s3 (xs @ P # ys) (P # remove1 P fl)"
    unfolding heap_inv_def by blast
  with ev fP3 zP3 show ?thesis by blast
qed

lemma mod16_add:
  fixes a b :: nat
  assumes "a mod 16 = 0" "b mod 16 = 0"
  shows "(a + b) mod 16 = 0"
  using assms by presburger

lemma coalesce_TT:
  assumes f: "freed_inv s (xs @ [P]) B (N # ys) fl"
    and fp: "is_free (mem s) P"
    and fn: "is_free (mem s) N"
  shows "\<exists>s'. coalesce s B = Inr (P, s')
     \<and> heap_inv s' (xs @ P # ys) (P # remove1 N (remove1 P fl))
     \<and> is_free (mem s') P
     \<and> bsize (mem s') P = bsize (mem s) P + bsize (mem s) B + bsize (mem s) N"
proof -
  let ?m = "mem s"
  let ?zB = "bsize ?m B"
  let ?zP = "bsize ?m P"
  let ?zN = "bsize ?m N"
  let ?c = "N + of_nat ?zN"
  note r = freed_reads [OF f]
  note q = freed_prev_free [OF f fp]
  from f have reg: "region s"
    and ch: "chain ?m (heap_start s) ((xs @ [P]) @ B # N # ys) (heap_end s)"
    and pN: "pfree ?m N" and t2: "tags ?m (is_free ?m N) ys"
    and d: "dll s fl"
    and ep: "epilogue s (lastfree ?m True (N # ys))"
    and sf: "set fl = {b \<in> set ((xs @ [P]) @ N # ys). is_free ?m b}"
    by (simp_all add: freed_inv_def)
  from r(2) have nB: "B + of_nat ?zB = N" and chN: "chain ?m ?c ys (heap_end s)"
    and kN: "unat N mod 16 = 12" and zN: "16 \<le> ?zN" "?zN mod 16 = 0"
    and eN: "unat N + ?zN \<le> unat (heap_end s)"
    by simp_all
  from r(7) nB have uN: "unat N = unat B + ?zB" by simp
  from unat_step [OF eN] have uc: "unat ?c = unat N + ?zN" .
  have Nfl: "N \<in> set fl" using sf fn by simp
  have dis: "distinct ((xs @ [P]) @ B # N # ys)" using ch by (rule chain_distinct)
  then have NP: "N \<noteq> P" by auto
  from list_remove_dll [OF d q(5)]
  obtain s1 where rm: "list_remove s P = Inr s1" and d1: "dll s1 (remove1 P fl)"
    and st: "list_step s s1"
    by blast
  note li = list_step_inv(1-3) [OF st reg ch]
  have Nin: "N \<in> set ((xs @ [P]) @ B # N # ys)" by simp
  note vN = block_valid(2) [OF reg ch Nin]
  let ?a = "?m P AND NOT (USED OR PREVFREE)"
  let ?b = "?m B AND NOT (USED OR PREVFREE)"
  let ?d = "?m N AND NOT (USED OR PREVFREE)"
  have sa: "bt_size s1 P = Inr ?a" using st q(6) q(10) by (rule list_step_size)
  have sb: "bt_size s1 B = Inr ?b" using st r(8) r(3) by (rule list_step_size)
  have sd: "bt_size s1 N = Inr ?d" using st vN kN by (rule list_step_size)
  have ua: "unat ?a = ?zP" and ub: "unat ?b = ?zB" and ud: "unat ?d = ?zN"
    by (simp_all add: bsize_def)
  have hsP: "unat (heap_start s) \<le> unat P" using q(8) by (rule chain_le)
  have "unat P + (?zP + ?zB + ?zN) \<le> unat (heap_end s)" using eN uN q(9) by simp
  with reg hsP have small: "?zP + ?zB + ?zN < 2 ^ 31" by (rule span_small)
  let ?sz = "scast (?a + ?b + ?d) :: size_t"
  have usz: "unat ?sz = ?zP + ?zB + ?zN" using sum3 [of ?a ?b ?d] small ua ub ud by simp
  have t2': "tags ?m True ys" using t2 fn by simp
  have lf: "lastfree ?m True (N # ys) = lastfree ?m True ys"
    using fn by (simp add: lastfree_def)
  have pc: "pfree ?m ?c"
  proof (cases ys)
    case Nil
    with chN have "?c = heap_end s" by simp
    with ep Nil fn show ?thesis by (simp add: epilogue_def lastfree_def)
  next
    case (Cons N' ys')
    with chN have "?c = N'" by simp
    with t2' Cons show ?thesis by simp
  qed
  from ep lf have ep': "\<not> is_free ?m (heap_end s1)"
    "pfree ?m (heap_end s1) = lastfree ?m True ys"
    by (simp_all add: epilogue_def li)
  from d q(5) have dfl: "distinct fl" by (auto simp: dll_def split: if_splits)
  then have nf: "P \<notin> set (remove1 P fl)" by simp
  have "\<exists>s2 s3. bt_make s1 P ?sz FREE = Inr s2 \<and> list_add s2 P = Inr s3
     \<and> region s3 \<and> heap_start s3 = heap_start s1 \<and> heap_end s3 = heap_end s1
     \<and> chain (mem s3) (heap_start s3) (xs @ P # ys) (heap_end s3)
     \<and> tags (mem s3) False (xs @ P # ys)
     \<and> epilogue s3 (lastfree (mem s3) False (xs @ P # ys))
     \<and> dll s3 (P # remove1 P fl)
     \<and> is_free (mem s3) P \<and> bsize (mem s3) P = ?zP + ?zB + ?zN
     \<and> (\<forall>b \<in> set xs \<union> set ys. is_free (mem s3) b = is_free ?m b)"
  proof (rule merge_core [where c = ?c])
    show "region s1" by (rule li)
    show "chain ?m (heap_start s1) xs P" using q(8) by (simp add: li)
    show "chain ?m ?c ys (heap_end s1)" using chN by (simp add: li)
    show "unat P mod 16 = 12" by (rule q(10))
    show "unat ?c = unat P + (?zP + ?zB + ?zN)" using uc uN q(9) by simp
    show "16 \<le> ?zP + ?zB + ?zN" using q(11) by simp
    show "(?zP + ?zB + ?zN) mod 16 = 0"
      by (rule mod16_add [OF mod16_add [OF q(12) r(5)] zN(2)])
    show "?zP + ?zB + ?zN < 2 ^ 31" by (rule small)
    show "tags ?m False xs" by (rule q(3))
    show "\<not> lastfree ?m False xs" by (rule q(4))
    show "tags ?m True ys" by (rule t2')
    show "pfree ?m ?c" by (rule pc)
    show "\<not> is_free ?m (heap_end s1)" by (rule ep')
    show "pfree ?m (heap_end s1) = lastfree ?m True ys" by (rule ep')
    show "tagsame ?m (mem s1)" using st by (rule list_step_tagsame)
    show "dll s1 (remove1 P fl)" by (rule d1)
    show "P \<notin> set (remove1 P fl)" by (rule nf)
    show "valid s1 P" using q(6) by (simp add: list_step_access [OF st])
    show "node s1 P" using q(7) by (simp add: list_step_access [OF st])
    show "unat ?sz = ?zP + ?zB + ?zN" by (rule usz)
  qed
  then obtain s2 s3 where mk: "bt_make s1 P ?sz FREE = Inr s2" and ad: "list_add s2 P = Inr s3"
    and reg3: "region s3"
    and ch3: "chain (mem s3) (heap_start s3) (xs @ P # ys) (heap_end s3)"
    and tg3: "tags (mem s3) False (xs @ P # ys)"
    and ep3: "epilogue s3 (lastfree (mem s3) False (xs @ P # ys))"
    and d3: "dll s3 (P # remove1 P fl)"
    and fP3: "is_free (mem s3) P" and zP3: "bsize (mem s3) P = ?zP + ?zB + ?zN"
    and same: "\<forall>b \<in> set xs \<union> set ys. is_free (mem s3) b = is_free ?m b"
    by blast
  have N3: "N \<in> set (P # remove1 P fl)" using Nfl NP by simp
  from list_remove_dll [OF d3 N3]
  obtain s4 where rm4: "list_remove s3 N = Inr s4"
    and d4': "dll s4 (remove1 N (P # remove1 P fl))" and st4: "list_step s3 s4"
    by blast
  from d4' NP have d4: "dll s4 (P # remove1 N (remove1 P fl))" by simp
  note l4 = list_step_inv [OF st4 reg3 ch3]
  from coalesce_eval [OF f] q(1) have ev0: "coalesce s B =
       bnd (list_remove s P) (\<lambda>s1.
       bnd (bt_size s1 P) (\<lambda>a.
       bnd (bt_size s1 B) (\<lambda>b.
       bnd (bt_size s1 N) (\<lambda>c.
       bnd (bt_make s1 P (scast (a + b + c)) FREE) (\<lambda>s2.
       bnd (list_add s2 P) (\<lambda>s3.
       bnd (list_remove s3 N) (\<lambda>s4. Inr (P, s4))))))))"
    using q(2) fn nB by (auto simp: Let_def)
  have ev: "coalesce s B = Inr (P, s4)"
    unfolding ev0 using rm sa sb sd mk ad rm4 by simp
  have same4: "is_free (mem s4) b = is_free (mem s3) b \<and> bsize (mem s4) b = bsize (mem s3) b"
    if "b \<in> set (xs @ P # ys)" for b
    using l4(7) that by blast
  have fP4: "is_free (mem s4) P" and zP4: "bsize (mem s4) P = ?zP + ?zB + ?zN"
    using same4 [of P] fP3 zP3 by simp_all
  have "set (P # remove1 N (remove1 P fl)) = {b \<in> set (xs @ P # ys). is_free (mem s4) b}"
  proof -
    have "set (remove1 N (remove1 P fl)) = set fl - {P} - {N}" using dfl by simp
    also have "\<dots> = {b \<in> set xs \<union> set ys. is_free ?m b}" using sf dis by auto
    also have "\<dots> = {b \<in> set xs \<union> set ys. is_free (mem s3) b}" using same by blast
    also have "\<dots> = {b \<in> set xs \<union> set ys. is_free (mem s4) b}" using same4 by auto
    finally show ?thesis using fP4 by auto
  qed
  moreover have "tags (mem s4) False (xs @ P # ys)" using l4(5) [of False] tg3 by simp
  moreover have "epilogue s4 (lastfree (mem s4) False (xs @ P # ys))"
    using l4(8) [of "lastfree (mem s3) False (xs @ P # ys)"] l4(6) [of False] ep3 by simp
  ultimately have "heap_inv s4 (xs @ P # ys) (P # remove1 N (remove1 P fl))"
    using l4(1) l4(4) d4 unfolding heap_inv_def by blast
  with ev fP4 zP4 show ?thesis by blast
qed

lemma coalesce_cases:
  assumes f: "freed_inv s xs B ys fl"
  shows "\<exists>s'. coalesce s B = Inr (fst (coalesce_table (mem s) xs B ys fl), s')
     \<and> heap_inv s' (fst (snd (snd (coalesce_table (mem s) xs B ys fl))))
                    (snd (snd (snd (coalesce_table (mem s) xs B ys fl))))
     \<and> is_free (mem s') (fst (coalesce_table (mem s) xs B ys fl))
     \<and> bsize (mem s') (fst (coalesce_table (mem s) xs B ys fl))
         = fst (snd (coalesce_table (mem s) xs B ys fl))"
proof -
  let ?m = "mem s"
  let ?nB = "B + of_nat (bsize ?m B)"
  note r = freed_reads [OF f]
  from f have pB: "pfree ?m B = lastfree ?m False xs"
    and ep: "epilogue s (lastfree ?m True ys)"
    by (simp_all add: freed_inv_def)
  have pf: "pfree ?m B = (xs \<noteq> [] \<and> is_free ?m (last xs))"
    using pB by (simp add: lastfree_def)
  have nf: "is_free ?m ?nB = (ys \<noteq> [] \<and> is_free ?m (hd ys))"
  proof (cases ys)
    case Nil
    with r(2) have "?nB = heap_end s" by simp
    with ep Nil show ?thesis by (simp add: epilogue_def)
  next
    case (Cons N ys')
    with r(2) have "?nB = N" by simp
    with Cons show ?thesis by simp
  qed
  show ?thesis
  proof (cases "xs \<noteq> [] \<and> is_free ?m (last xs)")
    case False
    note nP = this
    then have np: "\<not> pfree ?m B" using pf by simp
    show ?thesis
    proof (cases "ys \<noteq> [] \<and> is_free ?m (hd ys)")
      case False
      then have nn: "\<not> is_free ?m ?nB" using nf by simp
      from coalesce_FF [OF f np nn] nP False show ?thesis
        by (simp add: coalesce_table_def)
    next
      case True
      then obtain N ys' where ys: "ys = N # ys'" and fn: "is_free ?m N"
        by (cases ys) auto
      from coalesce_FT [OF f [unfolded ys] np fn] nP fn show ?thesis
        by (simp add: coalesce_table_def ys)
    qed
  next
    case True
    then obtain xs' P where xs: "xs = xs' @ [P]" and fp: "is_free ?m P"
      by (cases xs rule: rev_cases) auto
    show ?thesis
    proof (cases "ys \<noteq> [] \<and> is_free ?m (hd ys)")
      case False
      then have nn: "\<not> is_free ?m ?nB" using nf by simp
      from coalesce_TF [OF f [unfolded xs] fp nn] fp False show ?thesis
        by (simp add: coalesce_table_def xs)
    next
      case True
      then obtain N ys' where ys: "ys = N # ys'" and fn: "is_free ?m N"
        by (cases ys) auto
      from coalesce_TT [OF f [unfolded xs ys] fp fn] fp fn show ?thesis
        by (simp add: coalesce_table_def xs ys)
    qed
  qed
qed

lemma table_head:
  "snd (snd (snd (coalesce_table m xs B ys fl))) \<noteq> []"
  "hd (snd (snd (snd (coalesce_table m xs B ys fl)))) = fst (coalesce_table m xs B ys fl)"
  by (simp_all add: coalesce_table_def Let_def)

lemma coalesce_block:
  assumes f: "freed_inv s xs B ys fl"
  shows "\<exists>s'. coalesce s B = Inr (fst (coalesce_table (mem s) xs B ys fl), s')
     \<and> heap_inv s' (fst (snd (snd (coalesce_table (mem s) xs B ys fl))))
                    (snd (snd (snd (coalesce_table (mem s) xs B ys fl))))
     \<and> fst (coalesce_table (mem s) xs B ys fl)
         \<in> set (fst (snd (snd (coalesce_table (mem s) xs B ys fl))))
     \<and> is_free (mem s') (fst (coalesce_table (mem s) xs B ys fl))
     \<and> bsize (mem s') (fst (coalesce_table (mem s) xs B ys fl))
         = fst (snd (coalesce_table (mem s) xs B ys fl))"
proof -
  let ?t = "coalesce_table (mem s) xs B ys fl"
  from coalesce_cases [OF f] obtain s' where ev: "coalesce s B = Inr (fst ?t, s')"
    and inv: "heap_inv s' (fst (snd (snd ?t))) (snd (snd (snd ?t)))"
    and fr: "is_free (mem s') (fst ?t)" and sz: "bsize (mem s') (fst ?t) = fst (snd ?t)"
    by blast
  from table_head [of "mem s" xs B ys fl] have "fst ?t \<in> set (snd (snd (snd ?t)))"
    by (metis hd_in_set)
  moreover from inv have "set (snd (snd (snd ?t))) = {b \<in> set (fst (snd (snd ?t))). is_free (mem s') b}"
    by (simp add: heap_inv_def)
  ultimately have "fst ?t \<in> set (fst (snd (snd ?t)))" by simp
  with ev inv fr sz show ?thesis by blast
qed

lemma freed_mid_table:
  "coalesce_table (mem heap_freed_mid) [0x80000001C] 0x80000002C [0x80000003C, 0x80000004C]
     [0x80000003C, 0x80000001C]
   = (0x80000001C, 48, [0x80000001C, 0x80000004C], [0x80000001C])"
  by (simp add: coalesce_table_def heap_freed_mid_def is_free_def bsize_def USED_def PREVFREE_def)

lemma freed_mid_inv:
  "freed_inv heap_freed_mid [0x80000001C] 0x80000002C [0x80000003C, 0x80000004C]
     [0x80000003C, 0x80000001C]"
  unfolding freed_inv_def
  apply (intro conjI)
  apply (simp add: region_def heap_freed_mid_def)
  apply (simp add: heap_freed_mid_def bsize_def USED_def PREVFREE_def)
  apply (simp add: heap_freed_mid_def bsize_def USED_def PREVFREE_def pfree_def is_free_def footer_def)
  apply (simp add: heap_freed_mid_def pfree_def is_free_def lastfree_def USED_def PREVFREE_def)
  apply (simp add: heap_freed_mid_def is_free_def USED_def)
  apply (simp add: heap_freed_mid_def footer_def bsize_def USED_def PREVFREE_def)
  apply (simp add: heap_freed_mid_def pfree_def is_free_def USED_def PREVFREE_def)
  apply (simp add: heap_freed_mid_def epilogue_def pfree_def is_free_def lastfree_def USED_def PREVFREE_def)
  apply (simp add: heap_freed_mid_def dll_def node_def valid_def ptr_size_def)
  apply (auto simp: heap_freed_mid_def is_free_def USED_def)
  done

subsection \<open>The contract of coalesce\<close>

text \<open>
  The contract of \<open>coalesce\<close>, for one call taken alone. In every heap that satisfies the
  invariants I1 to I5 and in which the block \<open>B\<close> has just been marked FREE (\<open>freed_inv\<close>),
  \<open>coalesce\<close> returns, and it returns the row of the specification's table that the
  freeness of the two neighbours of \<open>B\<close> selects: \<open>B\<close> itself is added to the list when
  neither neighbour is free, and the free right neighbour, the free left neighbour or
  both are merged with it otherwise. The pointer returned is a block of the heap
  afterwards, FREE, and as large as the merged blocks together, and the invariants I1 to
  I5 hold (\<open>heap_inv\<close>) for the block list and the free list of that row. This says
  nothing about the heaps in which the public calls invoke \<open>coalesce\<close>.
\<close>

theorem coalesce_merges:
  assumes "freed_inv s xs B ys fl"
  shows "case coalesce_table (mem s) xs B ys fl of (R, z, bs', fl') \<Rightarrow>
      \<exists>s'. coalesce s B = Inr (R, s') \<and> heap_inv s' bs' fl' \<and> R \<in> set bs'
         \<and> is_free (mem s') R \<and> bsize (mem s') R = z"
  using coalesce_block [OF assms] by (simp add: split_beta)

theorem coalesce_merges_witness:
  "\<exists>s'. coalesce heap_freed_mid 0x80000002C = Inr (0x80000001C, s')
      \<and> heap_inv s' [0x80000001C, 0x80000004C] [0x80000001C]
      \<and> is_free (mem s') 0x80000001C \<and> bsize (mem s') 0x80000001C = 48"
  using coalesce_merges [OF freed_mid_inv] by (simp add: freed_mid_table)

subsection \<open>free keeps the invariants\<close>

text \<open>
  \<open>mm_free\<close> on the payload of a used block rewrites the block as FREE with \<open>bt_make\<close>,
  which gives the state \<open>freed_inv\<close>, and ends in \<open>coalesce\<close>: a heap that satisfies the
  invariants I1 to I5 satisfies them again when \<open>mm_free\<close> returns.
\<close>

lemma set_prevfree_word:
  fixes w :: word_t
  shows "((w AND NOT 2) OR 2) AND USED = w AND USED"
    "((w AND NOT 2) OR 2) AND PREVFREE \<noteq> 0"
    "((w AND NOT 2) OR 2) AND NOT (USED OR PREVFREE) = w AND NOT (USED OR PREVFREE)"
proof -
  have three: "(3 :: word_t) = mask 2" and one: "(1 :: word_t) = mask 1"
    by (simp_all add: mask_eq_exp_minus_1)
  have two: "(2 :: word_t) = push_bit 1 1" by simp
  have "((w AND NOT (push_bit 1 1)) OR push_bit 1 1) AND mask 1 = w AND mask 1"
    by (rule bit_word_eqI) (auto simp: bit_simps)
  then show "((w AND NOT 2) OR 2) AND USED = w AND USED"
    by (simp add: USED_def)
  have "((w AND NOT (push_bit 1 1)) OR push_bit 1 1) AND push_bit 1 1 = (push_bit 1 1 :: word_t)"
    by (rule bit_word_eqI) (auto simp: bit_simps)
  then have "((w AND NOT 2) OR 2) AND 2 = 2" by simp
  then show "((w AND NOT 2) OR 2) AND PREVFREE \<noteq> 0" by (simp add: PREVFREE_def)
  have "((w AND NOT (push_bit 1 1)) OR push_bit 1 1) AND NOT (mask 2) = w AND NOT (mask 2)"
    by (rule bit_word_eqI) (auto simp: bit_simps)
  then have "((w AND NOT 2) OR 2) AND NOT 3 = w AND NOT 3"
    unfolding three by simp
  then show "((w AND NOT 2) OR 2) AND NOT (USED OR PREVFREE) = w AND NOT (USED OR PREVFREE)"
    by (simp add: USED_def PREVFREE_def)
qed

lemma prevfree_flag:
  fixes w :: word_t
  shows "unat (FREE OR (w AND PREVFREE)) < 4" "(FREE OR (w AND PREVFREE)) AND 1 = 0"
    "(FREE OR (w AND PREVFREE)) AND 2 = w AND PREVFREE"
proof -
  have "w AND 2 \<le> 2" by (rule word_and_le1)
  then have "unat (w AND 2) \<le> 2" by (simp add: word_le_nat_alt)
  then show "unat (FREE OR (w AND PREVFREE)) < 4" by (simp add: FREE_def PREVFREE_def)
  have one: "(1 :: word_t) = mask 1" by (simp add: mask_eq_exp_minus_1)
  have "(w AND push_bit 1 1) AND mask 1 = 0"
    by (rule bit_word_eqI) (auto simp: bit_simps)
  then show "(FREE OR (w AND PREVFREE)) AND 1 = 0" by (simp add: FREE_def PREVFREE_def)
  show "(FREE OR (w AND PREVFREE)) AND 2 = w AND PREVFREE"
    by (simp add: FREE_def PREVFREE_def and.assoc)
qed

lemma free_marks:
  assumes h: "heap_inv s (xs @ B # ys) fl" and u: "\<not> is_free (mem s) B"
  shows "\<exists>s1. bt_size s B = Inr (mem s B AND NOT (USED OR PREVFREE))
     \<and> bt_get_prevfree s B = Inr (mem s B AND PREVFREE)
     \<and> bt_make s B (scast (mem s B AND NOT (USED OR PREVFREE))) (FREE OR (mem s B AND PREVFREE))
         = Inr s1
     \<and> freed_inv s1 xs B ys fl"
proof -
  let ?m = "mem s"
  let ?z = "bsize ?m B"
  let ?n = "?m B AND NOT (USED OR PREVFREE)"
  let ?sz = "scast ?n :: size_t"
  let ?f = "FREE OR (?m B AND PREVFREE)"
  let ?w = "ucast (?sz OR ucast ?f) :: word_t"
  let ?c = "B + ?sz"
  let ?e = "heap_end s"
  from h have reg: "region s" and ch: "chain ?m (heap_start s) (xs @ B # ys) ?e"
    and tg: "tags ?m False (xs @ B # ys)"
    and ep: "epilogue s (lastfree ?m False (xs @ B # ys))"
    and d: "dll s fl" and sf: "set fl = {b \<in> set (xs @ B # ys). is_free ?m b}"
    by (simp_all add: heap_inv_def)
  from ch obtain a where a: "chain ?m (heap_start s) xs a" "chain ?m a (B # ys) ?e"
    by (auto simp: chain_append)
  then have aB: "a = B" by simp
  with a have pre: "chain ?m (heap_start s) xs B" and kB: "unat B mod 16 = 12"
    and z: "16 \<le> ?z" "?z mod 16 = 0" "?z < 2 ^ 31" and eB: "unat B + ?z \<le> unat ?e"
    and post0: "chain ?m (B + of_nat ?z) ys ?e"
    by simp_all
  have un: "unat ?n = ?z" by (simp add: bsize_def)
  have usz: "unat ?sz = ?z" using unat_scast_small [of ?n] un z(3) by simp
  have szn: "?sz = of_nat ?z" using z(3) by (rule scast_bsize) simp
  have c: "unat ?c = unat B + ?z" using unat_step [OF eB] szn by simp
  have post: "chain ?m ?c ys ?e" using post0 szn by simp
  have ce: "unat ?c \<le> unat ?e" using c eB by simp
  have Bin: "B \<in> set (xs @ B # ys)" by simp
  note vB = block_valid(2) [OF reg ch Bin]
  from reg have he: "unat ?e + 4 \<le> unat (mem_brk s)" "unat ?e mod 16 = 12"
    by (simp_all add: region_def)
  have zz: "unat ?sz < 2 ^ 31" "unat ?sz mod 16 = 0" "16 \<le> unat ?sz" using usz z by simp_all
  have nx: "unat B + unat ?sz \<le> unat ?e" using usz eB by simp
  define M where "M = (?m)(B := ?w, ?c - 4 := ?w, ?c := (?m ?c AND NOT 2) OR 2)"
  let ?s1 = "s\<lparr>mem := M\<rparr>"
  have mk: "bt_make s B ?sz ?f = Inr ?s1"
    using bt_make_eq [OF vB zz prevfree_flag(1) nx he(1), of "?m B"] prevfree_flag(2) [of "?m B"]
    by (simp add: M_def)
  have c4: "unat (?c - 4) = unat B + ?z - 4" using c z by (simp add: unat_sub4)
  have kc: "unat ?c mod 16 = 12" "unat (?c - 4) mod 16 = 8"
    using mod16_footer [OF kB z(2,1)] c c4 by simp_all
  have "unat ?c \<noteq> unat B" "unat (?c - 4) \<noteq> unat B" "unat (?c - 4) \<noteq> unat ?c"
    using c c4 z by simp_all
  then have ne: "?c \<noteq> B" "?c - 4 \<noteq> B" "?c - 4 \<noteq> ?c" by auto
  have MB: "M B = ?w" and MF: "M (?c - 4) = ?w" and MN: "M ?c = (?m ?c AND NOT 2) OR 2"
    using ne by (simp_all add: M_def)
  have Mo: "M x = ?m x" if "x \<noteq> B" "x \<noteq> ?c - 4" "x \<noteq> ?c" for x
    using that by (simp add: M_def)
  have al': "unat ?sz mod 2 ^ 4 = 0" and fl': "unat ?f < 2 ^ 2" and sm': "unat ?sz < 2 ^ 31"
    using zz prevfree_flag(1) [of "?m B"] by simp_all
  note hp = header_parts [OF sm' al' fl']
  have bsB: "bsize M B = ?z"
    using hp(1) hp(5) usz by (simp add: bsize_def MB USED_def PREVFREE_def)
  have frB: "is_free M B"
    using hp(2) prevfree_flag(2) [of "?m B"] by (simp add: is_free_def MB USED_def)
  have pfB: "pfree M B = pfree ?m B"
    using hp(3) prevfree_flag(3) [of "?m B"] by (simp add: pfree_def MB PREVFREE_def)
  have ftB: "M (footer M B) = M B"
    using bsB szn MB MF by (simp add: footer_def)
  have fN: "is_free M ?c = is_free ?m ?c" and pN: "pfree M ?c" and zN: "bsize M ?c = bsize ?m ?c"
    unfolding is_free_def pfree_def bsize_def MN by (simp_all only: set_prevfree_word not_False_eq_True)
  have f1: "\<forall>x. unat (heap_start s) \<le> unat x \<and> unat x < unat B
               \<and> (unat x mod 16 = 8 \<or> unat x mod 16 = 12) \<longrightarrow> M x = ?m x"
  proof (intro allI impI)
    fix x :: addr assume x: "unat (heap_start s) \<le> unat x \<and> unat x < unat B
               \<and> (unat x mod 16 = 8 \<or> unat x mod 16 = 12)"
    then have "unat x < unat B" by simp
    with c c4 z(1) have "unat x \<noteq> unat B" "unat x \<noteq> unat (?c - 4)" "unat x \<noteq> unat ?c"
      by linarith+
    then have "x \<noteq> B" "x \<noteq> ?c - 4" "x \<noteq> ?c" by auto
    then show "M x = ?m x" by (rule Mo)
  qed
  note A = chain_tags_frame [OF pre f1]
  from tg have t1: "tags ?m False xs" and pB: "pfree ?m B = lastfree ?m False xs"
    and t2: "tags ?m (is_free ?m B) ys"
    by (simp_all add: tags_append)
  have after: "M x = ?m x" if "unat ?c < unat x" for x
  proof -
    from that c c4 z(1) have "unat x \<noteq> unat B" "unat x \<noteq> unat (?c - 4)" "unat x \<noteq> unat ?c"
      by linarith+
    then have "x \<noteq> B" "x \<noteq> ?c - 4" "x \<noteq> ?c" by auto
    then show ?thesis by (rule Mo)
  qed
  have G: "chain M ?c ys ?e
     \<and> (case ys of [] \<Rightarrow> True | N # ys' \<Rightarrow> pfree M N \<and> tags M (is_free M N) ys')
     \<and> epilogue ?s1 (lastfree M True ys)
     \<and> (\<forall>b \<in> set ys. is_free M b = is_free ?m b)"
  proof (cases ys)
    case Nil
    with post have ce': "?c = ?e" by simp
    from ep have "\<not> is_free ?m ?e" by (simp add: epilogue_def)
    with fN pN ce' have "epilogue ?s1 True" by (simp add: epilogue_def)
    with Nil ce' show ?thesis by (simp add: lastfree_def)
  next
    case (Cons N ys')
    with post have cN: "?c = N" and kN: "unat N mod 16 = 12"
      and n: "16 \<le> bsize ?m N" "bsize ?m N mod 16 = 0" "bsize ?m N < 2 ^ 31"
      and eN: "unat N + bsize ?m N \<le> unat ?e"
      and post': "chain ?m (N + of_nat (bsize ?m N)) ys' ?e"
      by simp_all
    from unat_step [OF eN] have uN: "unat (N + of_nat (bsize ?m N)) = unat N + bsize ?m N" .
    have f2: "\<forall>x. unat (N + of_nat (bsize ?m N)) \<le> unat x \<and> unat x < unat ?e
               \<and> (unat x mod 16 = 8 \<or> unat x mod 16 = 12) \<longrightarrow> M x = ?m x"
    proof (intro allI impI)
      fix x :: addr assume "unat (N + of_nat (bsize ?m N)) \<le> unat x \<and> unat x < unat ?e
               \<and> (unat x mod 16 = 8 \<or> unat x mod 16 = 12)"
      with uN n(1) cN have "unat ?c < unat x" by simp
      then show "M x = ?m x" by (rule after)
    qed
    note Y = chain_tags_frame [OF post' f2]
    from zN cN have zN': "bsize M N = bsize ?m N" by simp
    from fN cN have fN': "is_free M N = is_free ?m N" by simp
    from pN cN have pN': "pfree M N" by simp
    have 1: "chain M ?c ys ?e"
      using Cons cN [symmetric] kN n eN Y(1) zN' by simp
    from t2 Cons have t2': "tags ?m (is_free ?m N) ys'" by simp
    have 2: "pfree M N \<and> tags M (is_free M N) ys'"
      using pN' fN' t2' Y(2) [of "is_free ?m N"] by simp
    have "unat ?c < unat ?e" using cN eN n(1) by simp
    then have Me: "M ?e = ?m ?e" by (rule after)
    have lf: "lastfree M True ys = lastfree ?m False (xs @ B # ys)"
    proof (cases "ys' = []")
      case True
      with Cons fN' show ?thesis by (simp add: lastfree_def)
    next
      case False
      with Y(3) [of True] Cons show ?thesis by (simp add: lastfree_def)
    qed
    have 3: "epilogue ?s1 (lastfree M True ys)"
      using ep Me lf by (simp add: epilogue_def is_free_def pfree_def)
    have 4: "\<forall>b \<in> set ys. is_free M b = is_free ?m b"
      using Cons fN' Y(4) by simp
    from 1 2 3 4 Cons show ?thesis by simp
  qed
  have chn: "chain M (heap_start ?s1) (xs @ B # ys) (heap_end ?s1)"
  proof -
    have "chain M B (B # ys) ?e" using G kB z eB bsB szn by simp
    with A(1) show ?thesis by (auto simp: chain_append)
  qed
  have dl: "dll ?s1 fl"
  proof (rule dll_mem_frame [OF d], intro allI impI)
    fix x :: addr assume "unat x mod 16 = 0 \<or> unat x mod 16 = 4"
    with kB kc have "x \<noteq> B" "x \<noteq> ?c - 4" "x \<noteq> ?c" by auto
    then show "M x = ?m x" by (rule Mo)
  qed
  have st: "set fl = {b \<in> set (xs @ ys). is_free M b}"
  proof -
    have "{b \<in> set (xs @ ys). is_free M b} = {b \<in> set (xs @ ys). is_free ?m b}"
      using A(4) G by auto
    also have "\<dots> = {b \<in> set (xs @ B # ys). is_free ?m b}" using u by auto
    finally show ?thesis using sf by simp
  qed
  have "region ?s1" using reg by (simp add: region_def)
  moreover have "tags M False xs" using t1 A(2) by simp
  moreover have "pfree M B = lastfree M False xs" using pfB pB A(3) by simp
  moreover from G
  have "case ys of [] \<Rightarrow> True | N # ys' \<Rightarrow> pfree M N \<and> tags M (is_free M N) ys'"
    and "epilogue ?s1 (lastfree M True ys)"
    by simp_all
  ultimately have "freed_inv ?s1 xs B ys fl"
    unfolding freed_inv_def using chn frB ftB dl st by (simp cong: list.case_cong)
  moreover have "bt_size s B = Inr ?n" using vB by (simp add: bt_size_def)
  moreover have "bt_get_prevfree s B = Inr (?m B AND PREVFREE)"
    using vB by (simp add: bt_get_prevfree_def)
  ultimately show ?thesis using mk by blast
qed

lemma mm_free_inv:
  assumes h: "heap_inv s (xs @ B # ys) fl" and u: "\<not> is_free (mem s) B"
  shows "\<exists>s' bs' fl'. mm_free s (B + 4) = Inr s' \<and> heap_inv s' bs' fl'"
proof -
  from free_marks [OF h u] obtain s1
    where sz: "bt_size s B = Inr (mem s B AND NOT (USED OR PREVFREE))"
      and pf: "bt_get_prevfree s B = Inr (mem s B AND PREVFREE)"
      and mk: "bt_make s B (scast (mem s B AND NOT (USED OR PREVFREE)))
                 (FREE OR (mem s B AND PREVFREE)) = Inr s1"
      and f: "freed_inv s1 xs B ys fl"
    by blast
  let ?t = "coalesce_table (mem s1) xs B ys fl"
  from coalesce_block [OF f] obtain s' where co: "coalesce s1 B = Inr (fst ?t, s')"
    and inv: "heap_inv s' (fst (snd (snd ?t))) (snd (snd (snd ?t)))"
    by blast
  from h have reg: "region s" and ch: "chain (mem s) (heap_start s) (xs @ B # ys) (heap_end s)"
    by (simp_all add: heap_inv_def)
  have "B \<in> set (xs @ B # ys)" by simp
  from block_valid(1) [OF reg ch this] have "34359738368 \<le> unat B" "unat B < 34359738368 + 2 ^ 31"
    by (simp_all add: node_def)
  then have "unat (B + 4) = unat B + 4" by (intro unat_add_num) simp
  then have nz: "B + 4 \<noteq> 0" by (auto simp: word_unat_eq_iff)
  have "mm_free s (B + 4) = Inr s'"
    using nz sz pf mk co by (simp add: mm_free_def bt_fromptr_def)
  with inv show ?thesis by blast
qed

subsection \<open>Public calls that leave two adjacent FREE blocks\<close>

lemma seq_step1: "mm_malloc heap0 12 = Some (Inr (0x800000020, seq1))"
  by (simp add: alloc_defs heap0_def seq1_def bt_defs mem_defs)

lemma seq_step2: "mm_malloc seq1 12 = Some (Inr (0x800000030, seq2))"
  by (simp add: alloc_defs seq1_def seq2_def bt_defs mem_defs)

lemma seq_step3: "mm_malloc seq2 28 = Some (Inr (0x800000040, seq3))"
  by (simp add: alloc_defs seq2_def seq3_def bt_defs mem_defs)

lemma seq_step4: "mm_malloc seq3 12 = Some (Inr (0x800000060, seq4))"
  by (simp add: alloc_defs seq3_def seq4_def bt_defs mem_defs)

lemma seq_step5: "mm_malloc seq4 12 = Some (Inr (0x800000070, seq5))"
  by (simp add: alloc_defs seq4_def seq5_def bt_defs mem_defs)

lemma seq_step6: "mm_free seq5 0x800000030 = Inr seq6"
  by (simp add: mm_free_def coalesce_def seq5_def seq6_def bt_defs mem_defs list_defs fun_eq_iff)

lemma seq_step7: "mm_malloc seq6 12 = Some (Inr (0x800000030, seq7))"
  by (simp add: alloc_defs find_fit_loop.simps find_fit_step_def seq6_def seq7_def bt_defs
      mem_defs list_defs fun_eq_iff)

lemma seq_step8: "mm_free seq7 0x800000020 = Inr seq8"
  by (simp add: mm_free_def coalesce_def seq7_def seq8_def bt_defs mem_defs list_defs fun_eq_iff)

lemma seq_step9: "mm_free seq8 0x800000040 = Inr seq9"
  by (simp add: mm_free_def coalesce_def seq8_def seq9_def bt_defs mem_defs list_defs fun_eq_iff)

lemma seq_final:
  "\<exists>s10 s11. mm_realloc seq9 0x800000060 20 = Some (Inr (0x800000040, s10))
      \<and> bt_free s10 0x80000002C = Inr False
      \<and> load s10 0x80000003C = Inr 35
      \<and> mm_free s10 0x800000040 = Inr s11
      \<and> heap_start s11 = 0x80000001C
      \<and> load s11 0x80000001C = Inr 16 \<and> bt_free s11 0x80000001C = Inr True
      \<and> bt_next s11 0x80000001C = Inr 0x80000002C
      \<and> load s11 0x80000002C = Inr 64 \<and> bt_free s11 0x80000002C = Inr True"
  by (simp add: realloc_defs copy_defs blksz_def round_up_def ALIGNMENT_def seq9_def
      mm_free_def bt_defs mem_defs list_defs)

text \<open>
  C1: the code at the failing input. The claim ends: no two physically adjacent blocks
  are both FREE after any public call returns. On the heap of \<open>mm_init\<close> the calls
  \<open>malloc(12)\<close>, \<open>malloc(12)\<close>, \<open>malloc(28)\<close>, \<open>malloc(12)\<close>, \<open>malloc(12)\<close>, \<open>free\<close> of the second
  payload, \<open>malloc(12)\<close>, \<open>free\<close> of the first payload and \<open>free\<close> of the third payload all
  return, with the heaps \<open>seq1\<close> to \<open>seq9\<close>. Then \<open>realloc\<close> of the fourth payload to 20 bytes
  grows the block into its free left neighbour and returns the payload at offset
  \<open>0x40\<close>; the left-merge branch passes \<open>bt_get_prevfree(block)\<close> to \<open>bt_make(prev, ...)\<close>, so
  the header at offset \<open>0x3C\<close> is 35, USED with PREVFREE, although the block before it, at
  offset \<open>0x2C\<close>, is used: I2 fails when \<open>realloc\<close> returns. \<open>free\<close> of the payload returned
  trusts that bit, reads the last word of the used block before it as a footer, and
  merges the used block. When this \<open>free\<close> returns, the first block of the heap, at offset
  \<open>0x1C\<close>, is FREE with size 16, the block that follows it, at offset \<open>0x2C\<close>, is FREE with
  size 64: two physically adjacent blocks are both FREE.
\<close>

theorem public_calls_adjacent_free:
  "mm_init boot = Inr (0, heap0)
   \<and> mm_malloc heap0 12 = Some (Inr (0x800000020, seq1))
   \<and> mm_malloc seq1 12 = Some (Inr (0x800000030, seq2))
   \<and> mm_malloc seq2 28 = Some (Inr (0x800000040, seq3))
   \<and> mm_malloc seq3 12 = Some (Inr (0x800000060, seq4))
   \<and> mm_malloc seq4 12 = Some (Inr (0x800000070, seq5))
   \<and> mm_free seq5 0x800000030 = Inr seq6
   \<and> mm_malloc seq6 12 = Some (Inr (0x800000030, seq7))
   \<and> mm_free seq7 0x800000020 = Inr seq8
   \<and> mm_free seq8 0x800000040 = Inr seq9
   \<and> (\<exists>s10 s11. mm_realloc seq9 0x800000060 20 = Some (Inr (0x800000040, s10))
      \<and> bt_free s10 0x80000002C = Inr False
      \<and> load s10 0x80000003C = Inr 35
      \<and> mm_free s10 0x800000040 = Inr s11
      \<and> heap_start s11 = 0x80000001C
      \<and> load s11 0x80000001C = Inr 16 \<and> bt_free s11 0x80000001C = Inr True
      \<and> bt_next s11 0x80000001C = Inr 0x80000002C
      \<and> load s11 0x80000002C = Inr 64 \<and> bt_free s11 0x80000002C = Inr True)"
  by (intro conjI mm_init_boot seq_step1 seq_step2 seq_step3 seq_step4 seq_step5 seq_step6
      seq_step7 seq_step8 seq_step9 seq_final)

end
